theory Spec2Isabelle
  imports Complex_Main
begin

section \<open>Data of the notebook\<close>

text \<open>
  The notebook \<^verbatim>\<open>HeatEquation1D.ipynb\<close> is one script over NumPy arrays. A
  one-dimensional array is a list, a two-dimensional array the list of its rows. Python's
  floats are idealised as real numbers, so every statement below is one of exact arithmetic.
  The sizes \<^verbatim>\<open>nx\<close> and \<^verbatim>\<open>nt\<close> are natural numbers
  (NumPy rejects a negative count); where the script subtracts from them, the result that
  Python computes on integers is written out.
\<close>

type_synonym vec = "real list"
type_synonym matrix = "real list list"

text \<open>The exceptions the script can raise. None of them has a field besides its message.\<close>

datatype error = ZeroDivisionError | IndexError | ValueError | LinAlgError

text \<open>
  \<^verbatim>\<open>np.linalg.solve\<close> is not part of the repository; the script is modelled
  over any function of its type.
\<close>

type_synonym solver = "matrix \<Rightarrow> vec \<Rightarrow> error + vec"

definition ebind :: "error + 'a \<Rightarrow> ('a \<Rightarrow> error + 'b) \<Rightarrow> error + 'b" where
  "ebind m f = (case m of Inl e \<Rightarrow> Inl e | Inr x \<Rightarrow> f x)"

section \<open>The NumPy operations the script uses\<close>

text \<open>\<^verbatim>\<open>np.linspace(a, b, n)\<close>: n equidistant points, the last one set to b.\<close>

definition linspace :: "real \<Rightarrow> real \<Rightarrow> nat \<Rightarrow> vec" where
  "linspace a b n =
     (if n = 0 then [] else if n = 1 then [a]
      else map (\<lambda>i. a + real i * ((b - a) / real (n - 1))) [0..<n - 1] @ [b])"

text \<open>\<^verbatim>\<open>np.zeros((r, c))\<close>.\<close>

definition zeros :: "nat \<Rightarrow> nat \<Rightarrow> matrix" where
  "zeros r c = replicate r (replicate c 0)"

text \<open>
  \<^verbatim>\<open>np.diag(v, k)\<close> for a one-dimensional v: the square matrix of size
  \<open>len(v) + |k|\<close> that holds v on its k-th diagonal and zero elsewhere.
\<close>

definition np_diag :: "vec \<Rightarrow> int \<Rightarrow> matrix" where
  "np_diag v k =
     (let n = length v + nat \<bar>k\<bar>
      in map (\<lambda>i. map (\<lambda>j. if int j = int i + k then v ! (if 0 \<le> k then i else j) else 0)
                        [0..<n]) [0..<n])"

text \<open>
  \<^verbatim>\<open>X + Y\<close> on two-dimensional arrays, with NumPy's broadcasting: two extents
  are compatible when they are equal or one of them is 1, and the operand of extent 1 is
  repeated. Incompatible shapes raise ValueError.
\<close>

definition ncols :: "matrix \<Rightarrow> nat" where
  "ncols X = (case X of [] \<Rightarrow> 0 | r # _ \<Rightarrow> length r)"

definition bdim :: "nat \<Rightarrow> nat \<Rightarrow> nat option" where
  "bdim a b = (if a = b then Some a else if a = 1 then Some b else if b = 1 then Some a else None)"

definition stretch :: "nat \<Rightarrow> 'a list \<Rightarrow> 'a list" where
  "stretch n xs = (if length xs = n then xs else replicate n (hd xs))"

definition np_add :: "matrix \<Rightarrow> matrix \<Rightarrow> error + matrix" where
  "np_add X Y =
     (case (bdim (length X) (length Y), bdim (ncols X) (ncols Y)) of
        (Some r, Some c) \<Rightarrow>
          Inr (map2 (map2 (+)) (stretch r (map (stretch c) X)) (stretch r (map (stretch c) Y)))
      | _ \<Rightarrow> Inl ValueError)"

text \<open>
  \<^verbatim>\<open>M.dot(v)\<close> of a two-dimensional M and a one-dimensional v: ValueError
  unless the number of columns of M is the length of v.
\<close>

definition dot :: "vec \<Rightarrow> vec \<Rightarrow> real" where
  "dot r v = sum_list (map2 (*) r v)"

definition np_dot :: "matrix \<Rightarrow> vec \<Rightarrow> error + vec" where
  "np_dot M v =
     (if ncols M = length v \<and> list_all (\<lambda>r. length r = length v) M
      then Inr (map (\<lambda>r. dot r v) M) else Inl ValueError)"

text \<open>The slice \<^verbatim>\<open>row[1:-1]\<close>, read and assigned (a value of length 1 is broadcast).\<close>

definition interior :: "vec \<Rightarrow> vec" where
  "interior row = butlast (tl row)"

definition assign_interior :: "vec \<Rightarrow> vec \<Rightarrow> error + vec" where
  "assign_interior row v =
     (let m = length (interior row)
      in if length v = m then Inr (take 1 row @ v @ drop (Suc m) row)
         else if length v = 1 then Inr (take 1 row @ replicate m (hd v) @ drop (Suc m) row)
         else Inl ValueError)"

text \<open>
  \<^verbatim>\<open>u[:,0] = c\<close> and \<^verbatim>\<open>u[:,-1] = c\<close> on an array of nx columns:
  IndexError when there is no column.
\<close>

definition set_first_column :: "nat \<Rightarrow> matrix \<Rightarrow> real \<Rightarrow> error + matrix" where
  "set_first_column nx u c = (if nx = 0 then Inl IndexError else Inr (map (\<lambda>row. row[0 := c]) u))"

definition set_last_column :: "nat \<Rightarrow> matrix \<Rightarrow> real \<Rightarrow> error + matrix" where
  "set_last_column nx u c =
     (if nx = 0 then Inl IndexError else Inr (map (\<lambda>row. row[nx - 1 := c]) u))"

section \<open>The script\<close>

subsection \<open>Grid\<close>

text \<open>
  \<^verbatim>\<open>J = np.linspace(0,1,nx)\<close>, \<^verbatim>\<open>L = np.linspace(0,10,nt)\<close>,
  \<^verbatim>\<open>dx = 1/(nx-1)\<close>, \<^verbatim>\<open>dt = 1/(nt-1)\<close> and
  \<^verbatim>\<open>lbd = (D*dt)/(dx**2)\<close>. A division by zero raises.
\<close>

definition grid_J :: "nat \<Rightarrow> vec" where
  "grid_J nx = linspace 0 1 nx"

definition grid_L :: "nat \<Rightarrow> vec" where
  "grid_L nt = linspace 0 10 nt"

definition dx :: "nat \<Rightarrow> error + real" where
  "dx nx = (if real nx - 1 = 0 then Inl ZeroDivisionError else Inr (1 / (real nx - 1)))"

definition dt :: "nat \<Rightarrow> error + real" where
  "dt nt = (if real nt - 1 = 0 then Inl ZeroDivisionError else Inr (1 / (real nt - 1)))"

definition lbd :: "real \<Rightarrow> real \<Rightarrow> real \<Rightarrow> error + real" where
  "lbd D k h = (if h ^ 2 = 0 then Inl ZeroDivisionError else Inr ((D * k) / h ^ 2))"

subsection \<open>Coefficient matrices\<close>

text \<open>
  \<^verbatim>\<open>A = np.diag([2*(1+lbd)]*(nx-2),k = 0) + np.diag([-lbd]*(nx-3),k = 1) + np.diag([-lbd]*(nx-3),k = -1)\<close>
  and the same for B with \<open>2*(1-lbd)\<close> and \<open>lbd\<close>. A list repeated a negative number
  of times is empty, as \<open>replicate\<close> over the truncated difference is.
\<close>

definition matrix_A :: "real \<Rightarrow> nat \<Rightarrow> error + matrix" where
  "matrix_A lam nx =
     ebind (np_add (np_diag (replicate (nx - 2) (2 * (1 + lam))) 0)
                   (np_diag (replicate (nx - 3) (- lam)) 1))
       (\<lambda>S. np_add S (np_diag (replicate (nx - 3) (- lam)) (- 1)))"

definition matrix_B :: "real \<Rightarrow> nat \<Rightarrow> error + matrix" where
  "matrix_B lam nx =
     ebind (np_add (np_diag (replicate (nx - 2) (2 * (1 - lam))) 0)
                   (np_diag (replicate (nx - 3) lam) 1))
       (\<lambda>S. np_add S (np_diag (replicate (nx - 3) lam) (- 1)))"

subsection \<open>Field buffer and time stepping\<close>

text \<open>
  One pass of the loop body, for the index l:
  \<^verbatim>\<open>b = u[l,1:-1]; b = B.dot(b); sol = np.linalg.solve(A,b); u[l+1,1:-1] = sol\<close>.
\<close>

definition step :: "solver \<Rightarrow> matrix \<Rightarrow> matrix \<Rightarrow> nat \<Rightarrow> matrix \<Rightarrow> error + matrix" where
  "step solve A B l u =
     (if length u \<le> l then Inl IndexError
      else ebind (np_dot B (interior (u ! l))) (\<lambda>b.
           ebind (solve A b) (\<lambda>sol.
           if length u \<le> Suc l then Inl IndexError
           else ebind (assign_interior (u ! Suc l) sol) (\<lambda>row. Inr (u[Suc l := row])))))"

text \<open>
  The loop \<^verbatim>\<open>for l in range(nt-1)\<close> over the list of its indices. An exception
  leaves the loop at once; the buffer then is as the last completed pass left it.
\<close>

fun time_loop :: "solver \<Rightarrow> matrix \<Rightarrow> matrix \<Rightarrow> nat list \<Rightarrow> matrix \<Rightarrow> error option \<times> matrix" where
  "time_loop solve A B [] u = (None, u)"
| "time_loop solve A B (l # ls) u =
     (case step solve A B l u of
        Inl e \<Rightarrow> (Some e, u)
      | Inr u' \<Rightarrow> time_loop solve A B ls u')"

text \<open>
  Everything before the loop: the grid, the buffer with its boundary columns and initial
  row, and the two matrices. The diffusion coefficient D, the boundary values BCs and the
  initial interior field u0 are the script's inputs besides nx and nt.
\<close>

definition prelude :: "nat \<Rightarrow> nat \<Rightarrow> real \<Rightarrow> real \<times> real \<Rightarrow> vec \<Rightarrow> error + (real \<times> matrix \<times> matrix \<times> matrix)" where
  "prelude nx nt D BCs u0 =
     ebind (dx nx) (\<lambda>h.
     ebind (dt nt) (\<lambda>k.
     ebind (lbd D k h) (\<lambda>lam.
     ebind (set_first_column nx (zeros nt nx) (fst BCs)) (\<lambda>u1.
     ebind (set_last_column nx u1 (snd BCs)) (\<lambda>u2.
     if length u2 = 0 then Inl IndexError
     else ebind (assign_interior (u2 ! 0) u0) (\<lambda>row0.
          ebind (matrix_A lam nx) (\<lambda>A.
          ebind (matrix_B lam nx) (\<lambda>B.
          Inr (lam, u2[0 := row0], A, B)))))))))"

definition heat_equation_1d :: "solver \<Rightarrow> nat \<Rightarrow> nat \<Rightarrow> real \<Rightarrow> real \<times> real \<Rightarrow> vec \<Rightarrow> error + matrix" where
  "heat_equation_1d solve nx nt D BCs u0 =
     ebind (prelude nx nt D BCs u0) (\<lambda>(lam, u, A, B).
       case time_loop solve A B [0..<nt - 1] u of
         (None, u') \<Rightarrow> Inr u'
       | (Some e, u') \<Rightarrow> Inl e)"

section \<open>A reference solver\<close>

text \<open>
  Modelled from the spec: the LinearSystemSolver, which the script takes from NumPy
  (\<^verbatim>\<open>np.linalg.solve\<close>) and which is no part of the repository. "Given a square
  matrix and a vector of matching dimension, returns the unique solution vector, or fails
  if the matrix is not invertible." The model is Gaussian elimination with partial
  pivoting in exact arithmetic, on the equations (row, right-hand side). It gives the
  concrete runs below a solver to run with.
\<close>

type_synonym eqn = "real list \<times> real"

definition lead :: "eqn \<Rightarrow> real" where
  "lead q = (case fst q of [] \<Rightarrow> 0 | a # _ \<Rightarrow> a)"

fun pivot :: "eqn \<Rightarrow> eqn list \<Rightarrow> eqn \<times> eqn list" where
  "pivot p [] = (p, [])"
| "pivot p (q # qs) =
     (if \<bar>lead p\<bar> < \<bar>lead q\<bar>
      then (case pivot q qs of (m, rest) \<Rightarrow> (m, p # rest))
      else (case pivot p qs of (m, rest) \<Rightarrow> (m, q # rest)))"

definition eliminate :: "eqn \<Rightarrow> eqn \<Rightarrow> eqn" where
  "eliminate m q =
     (let f = lead q / lead m
      in (map2 (\<lambda>x y. x - f * y) (tl (fst q)) (tl (fst m)), snd q - f * snd m))"

fun gauss :: "nat \<Rightarrow> eqn list \<Rightarrow> vec option" where
  "gauss 0 rows = Some []"
| "gauss (Suc n) [] = None"
| "gauss (Suc n) (p # qs) =
     (case pivot p qs of (m, rest) \<Rightarrow>
        if lead m = 0 then None
        else (case gauss n (map (eliminate m) rest) of
                None \<Rightarrow> None
              | Some xs \<Rightarrow> Some ((snd m - dot (tl (fst m)) xs) / lead m # xs)))"

definition lu_solve :: solver where
  "lu_solve A b =
     (if \<not> list_all (\<lambda>r. length r = length A) A then Inl LinAlgError
      else if length b \<noteq> length A then Inl ValueError
      else (case gauss (length A) (zip A b) of None \<Rightarrow> Inl LinAlgError | Some x \<Rightarrow> Inr x))"

section \<open>Notions of the specification\<close>

text \<open>
  What the specification asks of a solver: a vector it returns solves the system.
\<close>

definition solver_sound :: "solver \<Rightarrow> bool" where
  "solver_sound solve = (\<forall>A b x. solve A b = Inr x \<longrightarrow> np_dot A x = Inr b)"

text \<open>
  The tridiagonal matrix of the specification: d on the diagonal, e next to it, zero
  everywhere else.
\<close>

definition tridiag :: "nat \<Rightarrow> real \<Rightarrow> real \<Rightarrow> matrix" where
  "tridiag n d e =
     map (\<lambda>i. map (\<lambda>j. if j = i then d else if j = Suc i \<or> i = Suc j then e else 0) [0..<n])
         [0..<n]"

definition is_symmetric :: "matrix \<Rightarrow> bool" where
  "is_symmetric M = (\<forall>i<length M. \<forall>j<length M. M ! i ! j = M ! j ! i)"

definition offdiag_abs_sum :: "matrix \<Rightarrow> nat \<Rightarrow> real" where
  "offdiag_abs_sum M i = (\<Sum>j\<leftarrow>[0..<length (M ! i)]. if j = i then 0 else \<bar>M ! i ! j\<bar>)"

definition strictly_diag_dominant :: "matrix \<Rightarrow> bool" where
  "strictly_diag_dominant M = (\<forall>i<length M. offdiag_abs_sum M i < \<bar>M ! i ! i\<bar>)"

text \<open>
  The grid of the specification, read off the script. The interior points are those of J
  without its two ends, and the space length is the extent of J. A step is a pass of the
  loop \<^verbatim>\<open>for l in range(nt-1)\<close>. The animation shows frame i, for i below nt,
  under the time \<^verbatim>\<open>t = i*dt\<close>; the total time is that of its last frame. The
  array L is read nowhere in the script.
\<close>

definition interior_count :: "nat \<Rightarrow> nat" where
  "interior_count nx = length (interior (grid_J nx))"

definition step_count :: "nat \<Rightarrow> nat" where
  "step_count nt = length [0..<nt - 1]"

definition space_length :: "nat \<Rightarrow> real" where
  "space_length nx = last (grid_J nx) - hd (grid_J nx)"

definition frame_time :: "real \<Rightarrow> nat \<Rightarrow> real" where
  "frame_time k i = real i * k"

definition total_time :: "nat \<Rightarrow> error + real" where
  "total_time nt = ebind (dt nt) (\<lambda>k. Inr (frame_time k (nt - 1)))"

text \<open>
  The row that the script's zero buffer holds once the two boundary columns are set, and
  the buffer of the specification: nt snapshots of nx values each, with the boundary
  values at the two ends of every snapshot.
\<close>

definition boundary_row :: "nat \<Rightarrow> real \<times> real \<Rightarrow> vec" where
  "boundary_row nx BCs = (replicate nx 0)[0 := fst BCs, nx - 1 := snd BCs]"

definition bounded_by :: "nat \<Rightarrow> nat \<Rightarrow> real \<times> real \<Rightarrow> matrix \<Rightarrow> bool" where
  "bounded_by nt nx BCs u =
     (length u = nt \<and> (\<forall>l<nt. length (u ! l) = nx \<and> u ! l ! 0 = fst BCs \<and> u ! l ! (nx - 1) = snd BCs))"

text \<open>Two buffers of one shape with the same interior values.\<close>

definition same_interior :: "matrix \<Rightarrow> matrix \<Rightarrow> bool" where
  "same_interior u w = (map length u = map length w \<and> map interior u = map interior w)"

section \<open>Basic facts\<close>

lemma ebind_Inr [simp]: "ebind (Inr x) f = f x"
  by (simp add: ebind_def)

lemma ebind_Inl [simp]: "ebind (Inl e) f = Inl e"
  by (simp add: ebind_def)

lemma ebind_eq_Inr: "ebind m f = Inr y \<longleftrightarrow> (\<exists>x. m = Inr x \<and> f x = Inr y)"
  by (cases m) simp_all

lemma length_linspace [simp]: "length (linspace a b n) = n"
  by (simp add: linspace_def)

lemma hd_linspace: "0 < n \<Longrightarrow> hd (linspace a b n) = a"
  by (cases "n = 1") (simp_all add: linspace_def hd_append hd_map upt_conv_Cons)

lemma last_linspace: "2 \<le> n \<Longrightarrow> last (linspace a b n) = b"
  by (simp add: linspace_def)

lemma length_interior [simp]: "length (interior row) = length row - 2"
  by (simp add: interior_def)

lemma sum_list_delta:
  "(\<Sum>j\<leftarrow>[0..<n]. if j = a then f j else 0) = (if a < n then f a else (0::real))"
  by (induction n) auto

lemma grid_views:
  "interior_count nx = nx - 2" "step_count nt = nt - 1"
  "2 \<le> nx \<Longrightarrow> space_length nx = 1"
  by (simp_all add: interior_count_def step_count_def space_length_def
        grid_J_def hd_linspace last_linspace)

section \<open>The coefficient matrices\<close>

lemma length_np_diag: "length (np_diag v k) = length v + nat \<bar>k\<bar>"
  by (simp add: np_diag_def Let_def)

lemma length_np_diag_row:
  "i < length v + nat \<bar>k\<bar> \<Longrightarrow> length (np_diag v k ! i) = length v + nat \<bar>k\<bar>"
  by (simp add: np_diag_def Let_def)

lemma np_diag_nth:
  "i < length v + nat \<bar>k\<bar> \<Longrightarrow> j < length v + nat \<bar>k\<bar> \<Longrightarrow>
   np_diag v k ! i ! j = (if int j = int i + k then v ! (if 0 \<le> k then i else j) else 0)"
  by (simp add: np_diag_def Let_def)

text \<open>On operands of one shape the sum is taken entry by entry.\<close>

lemma np_add_same_shape:
  assumes "length X = n" "length Y = n"
    and "\<forall>i<n. length (X ! i) = c" "\<forall>i<n. length (Y ! i) = c"
  shows "np_add X Y = Inr (map2 (map2 (+)) X Y)"
proof (cases n)
  case 0
  with assms show ?thesis by (simp add: np_add_def bdim_def ncols_def stretch_def)
next
  case (Suc m)
  have cx: "ncols X = c" using assms Suc by (cases X) (auto simp: ncols_def)
  have cy: "ncols Y = c" using assms Suc by (cases Y) (auto simp: ncols_def)
  have sx: "map (stretch c) X = X"
    using assms by (intro nth_equalityI) (auto simp: stretch_def)
  have sy: "map (stretch c) Y = Y"
    using assms by (intro nth_equalityI) (auto simp: stretch_def)
  show ?thesis using assms
    by (simp add: np_add_def cx cy bdim_def sx sy stretch_def)
qed

lemma length_tridiag [simp]: "length (tridiag n d e) = n"
  by (simp add: tridiag_def)

lemma length_tridiag_row [simp]: "i < n \<Longrightarrow> length (tridiag n d e ! i) = n"
  by (simp add: tridiag_def)

lemma tridiag_nth:
  "i < n \<Longrightarrow> j < n \<Longrightarrow>
   tridiag n d e ! i ! j = (if j = i then d else if j = Suc i \<or> i = Suc j then e else 0)"
  by (simp add: tridiag_def)

text \<open>
  The sum of the three diagonal matrices, as the script forms it. For \<open>n = 0\<close> the two
  off-diagonal summands are 1 by 1 and broadcasting shrinks them to nothing.
\<close>

lemma banded_sum:
  "ebind (np_add (np_diag (replicate n d) 0) (np_diag (replicate (n - 1) e) 1))
         (\<lambda>S. np_add S (np_diag (replicate (n - 1) e) (- 1))) = Inr (tridiag n d e)"
proof (cases "n = 0")
  case True
  then show ?thesis
    by (simp add: np_add_def np_diag_def bdim_def ncols_def stretch_def tridiag_def)
next
  case False
  then have pos: "n - 1 + 1 = n" "0 < n" by simp_all
  let ?D0 = "np_diag (replicate n d) 0" and ?D1 = "np_diag (replicate (n - 1) e) 1"
  let ?D2 = "np_diag (replicate (n - 1) e) (- 1)"
  let ?S = "map2 (map2 (+)) (map2 (map2 (+)) ?D0 ?D1) ?D2"
  have s1: "np_add ?D0 ?D1 = Inr (map2 (map2 (+)) ?D0 ?D1)"
    using pos by (intro np_add_same_shape[where n = n and c = n])
                 (simp_all add: length_np_diag length_np_diag_row)
  have s2: "np_add (map2 (map2 (+)) ?D0 ?D1) ?D2 = Inr ?S"
    using pos by (intro np_add_same_shape[where n = n and c = n])
                 (simp_all add: length_np_diag length_np_diag_row)
  have "?S = tridiag n d e"
  proof (rule nth_equalityI)
    show "length ?S = length (tridiag n d e)"
      using pos by (simp add: length_np_diag)
  next
    fix i assume "i < length ?S"
    then have i: "i < n" using pos by (simp add: length_np_diag)
    show "?S ! i = tridiag n d e ! i"
    proof (rule nth_equalityI)
      show "length (?S ! i) = length (tridiag n d e ! i)"
        using pos i by (simp add: length_np_diag length_np_diag_row)
    next
      fix j assume "j < length (?S ! i)"
      then have j: "j < n" using pos i by (simp add: length_np_diag length_np_diag_row)
      show "?S ! i ! j = tridiag n d e ! i ! j"
        using pos i j
        by (auto simp: length_np_diag length_np_diag_row np_diag_nth tridiag_nth)
    qed
  qed
  with s1 s2 show ?thesis by simp
qed

lemma matrix_A_tridiag: "matrix_A lam nx = Inr (tridiag (nx - 2) (2 * (1 + lam)) (- lam))"
  using banded_sum[of "nx - 2" "2 * (1 + lam)" "- lam"]
  by (simp add: matrix_A_def numeral_3_eq_3 numeral_2_eq_2)

lemma matrix_B_tridiag: "matrix_B lam nx = Inr (tridiag (nx - 2) (2 * (1 - lam)) lam)"
  using banded_sum[of "nx - 2" "2 * (1 - lam)" "lam"]
  by (simp add: matrix_B_def numeral_3_eq_3 numeral_2_eq_2)

text \<open>
  Claim C2. For every \<open>\<lambda>\<close> and every number \<open>n \<ge> 1\<close> of interior points (so
  \<open>nx = n + 2\<close>) the script builds two n by n matrices: A holds \<open>2(1+\<lambda>)\<close> on its
  diagonal and \<open>-\<lambda>\<close> next to it, B holds \<open>2(1-\<lambda>)\<close> and \<open>\<lambda>\<close>, and every other
  entry of both is zero.
\<close>

theorem coefficient_matrices_entries:
  assumes "1 \<le> n"
  shows "\<exists>A B. matrix_A lam (n + 2) = Inr A \<and> matrix_B lam (n + 2) = Inr B
           \<and> length A = n \<and> length B = n
           \<and> (\<forall>i<n. length (A ! i) = n \<and> length (B ! i) = n
                \<and> (\<forall>j<n. A ! i ! j = (if j = i then 2 * (1 + lam)
                                        else if j = i + 1 \<or> i = j + 1 then - lam else 0)
                         \<and> B ! i ! j = (if j = i then 2 * (1 - lam)
                                        else if j = i + 1 \<or> i = j + 1 then lam else 0)))"
  by (simp add: matrix_A_tridiag matrix_B_tridiag tridiag_nth)

theorem coefficient_matrices_entries_witness:
  "(1::nat) \<le> 3 \<and> (\<exists>A B. matrix_A 2 (3 + 2) = Inr A \<and> matrix_B 2 (3 + 2) = Inr B
           \<and> length A = 3 \<and> length B = 3
           \<and> (\<forall>i<3. length (A ! i) = 3 \<and> length (B ! i) = 3
                \<and> (\<forall>j<3. A ! i ! j = (if j = i then 2 * (1 + 2)
                                        else if j = i + 1 \<or> i = j + 1 then - 2 else 0)
                         \<and> B ! i ! j = (if j = i then 2 * (1 - 2)
                                        else if j = i + 1 \<or> i = j + 1 then 2 else 0))))"
proof -
  have h: "(1::nat) \<le> 3" by simp
  from coefficient_matrices_entries[OF h, of 2] show ?thesis using h by blast
qed

text \<open>
  Claim C3 says that the corner entries \<open>[0][n-1]\<close> and \<open>[n-1][0]\<close> of both matrices
  are nonzero for every \<open>n \<ge> 2\<close>. With three interior points and \<open>\<lambda> = 2\<close> all four
  corners are zero.
\<close>

theorem zero_corners_counterexample:
  "map_sum id (\<lambda>A. (A ! 0 ! (3 - 1), A ! (3 - 1) ! 0)) (matrix_A 2 (3 + 2)) = Inr (0, 0)
   \<and> map_sum id (\<lambda>B. (B ! 0 ! (3 - 1), B ! (3 - 1) ! 0)) (matrix_B 2 (3 + 2)) = Inr (0, 0)"
  by (simp add: matrix_A_tridiag matrix_B_tridiag tridiag_nth)

text \<open>
  Claim C3, amended. The matrices are plainly tridiagonal, without wrap-around: for
  \<open>n \<ge> 3\<close> the corner entries \<open>[0][n-1]\<close> and \<open>[n-1][0]\<close> of both are zero; for
  \<open>n = 2\<close> these two places are the neighbours of the diagonal and hold \<open>-\<lambda>\<close> in A
  and \<open>\<lambda>\<close> in B.
\<close>

theorem corner_entries:
  assumes "2 \<le> n"
  shows "\<exists>A B. matrix_A lam (n + 2) = Inr A \<and> matrix_B lam (n + 2) = Inr B
           \<and> A ! 0 ! (n - 1) = (if n = 2 then - lam else 0)
           \<and> A ! (n - 1) ! 0 = (if n = 2 then - lam else 0)
           \<and> B ! 0 ! (n - 1) = (if n = 2 then lam else 0)
           \<and> B ! (n - 1) ! 0 = (if n = 2 then lam else 0)"
  using assms by (auto simp: matrix_A_tridiag matrix_B_tridiag tridiag_nth)

theorem corner_entries_witness:
  "(2::nat) \<le> 4 \<and> (\<exists>A B. matrix_A 2 (4 + 2) = Inr A \<and> matrix_B 2 (4 + 2) = Inr B
           \<and> A ! 0 ! (4 - 1) = (if (4::nat) = 2 then - 2 else 0)
           \<and> A ! (4 - 1) ! 0 = (if (4::nat) = 2 then - 2 else 0)
           \<and> B ! 0 ! (4 - 1) = (if (4::nat) = 2 then 2 else 0)
           \<and> B ! (4 - 1) ! 0 = (if (4::nat) = 2 then 2 else 0))"
proof -
  have h: "(2::nat) \<le> 4" by simp
  from corner_entries[OF h, of 2] show ?thesis using h by blast
qed

lemma tridiag_symmetric: "is_symmetric (tridiag n d e)"
  by (auto simp: is_symmetric_def tridiag_nth)

lemma tridiag_offdiag_abs_sum:
  assumes "i < n"
  shows "offdiag_abs_sum (tridiag n d e) i
           = (if 0 < i then \<bar>e\<bar> else 0) + (if Suc i < n then \<bar>e\<bar> else 0)"
proof -
  have "offdiag_abs_sum (tridiag n d e) i
          = (\<Sum>j\<leftarrow>[0..<n]. (if Suc j = i then \<bar>e\<bar> else 0) + (if j = Suc i then \<bar>e\<bar> else 0))"
    unfolding offdiag_abs_sum_def using assms
    by (auto simp: tridiag_nth intro!: arg_cong[where f = sum_list] map_cong)
  also have "\<dots> = (\<Sum>j\<leftarrow>[0..<n]. if Suc j = i then \<bar>e\<bar> else 0)
                 + (\<Sum>j\<leftarrow>[0..<n]. if j = Suc i then \<bar>e\<bar> else 0)"
    by (simp add: sum_list_addf)
  also have "(\<Sum>j\<leftarrow>[0..<n]. if Suc j = i then \<bar>e\<bar> else 0)
               = (\<Sum>j\<leftarrow>[0..<n]. if j = i - 1 then (if 0 < i then \<bar>e\<bar> else 0) else 0)"
    by (auto intro!: arg_cong[where f = sum_list] map_cong)
  finally show ?thesis using assms
    by (cases "i - 1 < n") (simp_all add: sum_list_delta)
qed

lemma matrix_A_dominant:
  assumes "0 < lam"
  shows "strictly_diag_dominant (tridiag n (2 * (1 + lam)) (- lam))"
  unfolding strictly_diag_dominant_def using assms
  by (auto simp: tridiag_offdiag_abs_sum tridiag_nth)

text \<open>
  Claim C4. For every \<open>\<lambda> > 0\<close> and every \<open>n \<ge> 1\<close> the two built matrices are n by n
  and symmetric, and A is strictly diagonally dominant: in each of its n rows the diagonal
  entry is \<open>2(1+\<lambda>)\<close>, and its absolute value exceeds the sum of the absolute values of
  the other entries of the row.
\<close>

theorem coefficient_matrices_symmetric_dominant:
  assumes "0 < lam" and "1 \<le> n"
  shows "\<exists>A B. matrix_A lam (n + 2) = Inr A \<and> matrix_B lam (n + 2) = Inr B
           \<and> length A = n \<and> length B = n
           \<and> (\<forall>i<n. length (A ! i) = n \<and> length (B ! i) = n
                \<and> A ! i ! i = 2 * (1 + lam)
                \<and> offdiag_abs_sum A i < \<bar>A ! i ! i\<bar>
                \<and> offdiag_abs_sum A i < 2 * (1 + lam)
                \<and> (\<forall>j<n. A ! i ! j = A ! j ! i \<and> B ! i ! j = B ! j ! i))
           \<and> is_symmetric A \<and> is_symmetric B \<and> strictly_diag_dominant A"
proof -
  let ?A = "tridiag n (2 * (1 + lam)) (- lam)" and ?B = "tridiag n (2 * (1 - lam)) lam"
  have dom: "strictly_diag_dominant ?A" by (rule matrix_A_dominant[OF assms(1)])
  have rows: "length (?A ! i) = n \<and> length (?B ! i) = n
                \<and> ?A ! i ! i = 2 * (1 + lam)
                \<and> offdiag_abs_sum ?A i < \<bar>?A ! i ! i\<bar>
                \<and> offdiag_abs_sum ?A i < 2 * (1 + lam)
                \<and> (\<forall>j<n. ?A ! i ! j = ?A ! j ! i \<and> ?B ! i ! j = ?B ! j ! i)" if i: "i < n" for i
  proof -
    have d: "?A ! i ! i = 2 * (1 + lam)" using i by (simp add: tridiag_nth)
    have o: "offdiag_abs_sum ?A i < \<bar>?A ! i ! i\<bar>"
      using dom i by (simp add: strictly_diag_dominant_def)
    have o': "offdiag_abs_sum ?A i < 2 * (1 + lam)" using o assms(1) unfolding d by simp
    have sym: "\<forall>j<n. ?A ! i ! j = ?A ! j ! i \<and> ?B ! i ! j = ?B ! j ! i"
      using i by (auto simp: tridiag_nth)
    from i have len: "length (?A ! i) = n" "length (?B ! i) = n" by simp_all
    show ?thesis by (intro conjI len d o o' sym)
  qed
  have mA: "matrix_A lam (n + 2) = Inr ?A" and mB: "matrix_B lam (n + 2) = Inr ?B"
    by (simp_all add: matrix_A_tridiag matrix_B_tridiag)
  have lA: "length ?A = n" and lB: "length ?B = n" by simp_all
  have sA: "is_symmetric ?A" and sB: "is_symmetric ?B" by (rule tridiag_symmetric)+
  show ?thesis
    by (rule exI[of _ ?A], rule exI[of _ ?B])
       (intro conjI allI impI mA mB lA lB sA sB dom rows)
qed

theorem coefficient_matrices_symmetric_dominant_witness:
  "(0::real) < 2 \<and> (1::nat) \<le> 3
   \<and> (\<exists>A B. matrix_A 2 (3 + 2) = Inr A \<and> matrix_B 2 (3 + 2) = Inr B
           \<and> length A = 3 \<and> length B = 3
           \<and> (\<forall>i<3. length (A ! i) = 3 \<and> length (B ! i) = 3
                \<and> A ! i ! i = 2 * (1 + 2)
                \<and> offdiag_abs_sum A i < \<bar>A ! i ! i\<bar>
                \<and> offdiag_abs_sum A i < 2 * (1 + 2)
                \<and> (\<forall>j<3. A ! i ! j = A ! j ! i \<and> B ! i ! j = B ! j ! i))
           \<and> is_symmetric A \<and> is_symmetric B \<and> strictly_diag_dominant A)"
proof -
  have h: "(0::real) < 2" "(1::nat) \<le> 3" by simp_all
  show ?thesis by (intro conjI) (rule h coefficient_matrices_symmetric_dominant[OF h])+
qed

section \<open>The matrices as linear maps\<close>

lemma dot_Nil [simp]: "dot [] v = 0" "dot r [] = 0"
  by (simp_all add: dot_def)

lemma dot_Cons [simp]: "dot (a # r) (x # v) = a * x + dot r v"
  by (simp add: dot_def)

lemma dot_zero [simp]: "dot r (replicate n 0) = 0"
proof (induction n arbitrary: r)
  case 0
  then show ?case by simp
next
  case (Suc n)
  then show ?case by (cases r) simp_all
qed

lemma dot_nth:
  assumes "length r = length v"
  shows "dot r v = (\<Sum>j\<leftarrow>[0..<length v]. r ! j * v ! j)"
proof -
  have "map2 (*) r v = map (\<lambda>j. r ! j * v ! j) [0..<length v]"
    using assms by (intro nth_equalityI) auto
  then show ?thesis by (simp add: dot_def)
qed

lemma dot_diff:
  "length x = length y \<Longrightarrow> dot r (map2 (-) x y) = dot r x - dot r y"
proof (induction x y arbitrary: r rule: list_induct2)
  case Nil
  then show ?case by simp
next
  case (Cons a x b y)
  then show ?case by (cases r) (simp_all add: algebra_simps)
qed

lemma np_dot_eq_Inr:
  "np_dot M v = Inr b \<longleftrightarrow>
     ncols M = length v \<and> list_all (\<lambda>r. length r = length v) M \<and> b = map (\<lambda>r. dot r v) M"
  by (auto simp: np_dot_def)

lemma ncols_tridiag [simp]: "ncols (tridiag n d e) = n"
  by (cases "n = 0") (simp_all add: tridiag_def ncols_def upt_conv_Cons)

lemma np_dot_tridiag:
  "np_dot (tridiag n d e) v = (if length v = n then Inr (map (\<lambda>r. dot r v) (tridiag n d e)) else Inl ValueError)"
  by (auto simp: np_dot_def list_all_length)

text \<open>A row of a tridiagonal matrix applied to a vector.\<close>

lemma dot_tridiag_row:
  assumes "i < n" and "length x = n"
  shows "dot (tridiag n d e ! i) x
           = d * x ! i + (if 0 < i then e * x ! (i - 1) else 0)
                       + (if Suc i < n then e * x ! Suc i else 0)"
proof -
  have "dot (tridiag n d e ! i) x = (\<Sum>j\<leftarrow>[0..<n]. tridiag n d e ! i ! j * x ! j)"
    using assms by (simp add: dot_nth)
  also have "\<dots> = (\<Sum>j\<leftarrow>[0..<n]. (if j = i then d * x ! j else 0)
                      + ((if j = i - 1 then (if 0 < i then e * x ! j else 0) else 0)
                      + (if j = Suc i then e * x ! j else 0)))"
    using assms by (intro arg_cong[where f = sum_list] map_cong) (auto simp: tridiag_nth)
  also have "\<dots> = (if i < n then d * x ! i else 0)
                  + ((if i - 1 < n then (if 0 < i then e * x ! (i - 1) else 0) else 0)
                  + (if Suc i < n then e * x ! Suc i else 0))"
    by (simp only: sum_list_addf sum_list_delta)
  finally show ?thesis using assms by (cases "i - 1 < n") simp_all
qed

text \<open>
  For \<open>\<lambda> > 0\<close> the matrix A annihilates no vector but zero: at an entry of greatest
  absolute value the diagonal outweighs the two neighbours.
\<close>

lemma matrix_A_kernel:
  assumes lam: "0 < lam" and len: "length x = n"
    and zero: "\<And>i. i < n \<Longrightarrow> dot (tridiag n (2 * (1 + lam)) (- lam) ! i) x = 0"
  shows "x = replicate n 0"
proof (cases "n = 0")
  case True
  with len show ?thesis by simp
next
  case False
  let ?S = "(\<lambda>j. \<bar>x ! j\<bar>) ` {..<n}"
  have fin: "finite ?S" and ne: "?S \<noteq> {}" using False by auto
  from Max_in[OF fin ne] obtain i where i: "i < n" and mx: "\<bar>x ! i\<bar> = Max ?S" by auto
  have le: "\<bar>x ! j\<bar> \<le> \<bar>x ! i\<bar>" if "j < n" for j
    using Max_ge[OF fin, of "\<bar>x ! j\<bar>"] that mx by auto
  define a where "a = x ! i"
  define p where "p = (if 0 < i then x ! (i - 1) else 0)"
  define q where "q = (if Suc i < n then x ! Suc i else 0)"
  have pa: "\<bar>p\<bar> \<le> \<bar>a\<bar>" using le[of "i - 1"] i by (simp add: p_def a_def)
  have qa: "\<bar>q\<bar> \<le> \<bar>a\<bar>" using le[of "Suc i"] by (simp add: q_def a_def)
  from zero[OF i] have "2 * (1 + lam) * a - lam * p - lam * q = 0"
    using i len by (auto simp: dot_tridiag_row a_def p_def q_def algebra_simps)
  then have "(2 + 2 * lam) * a = lam * (p + q)" by (simp add: algebra_simps)
  then have "\<bar>(2 + 2 * lam) * a\<bar> = \<bar>lam * (p + q)\<bar>" by simp
  then have "(2 + 2 * lam) * \<bar>a\<bar> = lam * \<bar>p + q\<bar>" using lam by (simp add: abs_mult)
  moreover have "lam * \<bar>p + q\<bar> \<le> lam * (2 * \<bar>a\<bar>)"
    using lam pa qa by (intro mult_left_mono) auto
  ultimately have "2 * \<bar>a\<bar> + 2 * (lam * \<bar>a\<bar>) \<le> 2 * (lam * \<bar>a\<bar>)" by (simp add: algebra_simps)
  then have "a = 0" by simp
  with le have "x ! j = 0" if "j < n" for j using that by (fastforce simp: a_def)
  with len show ?thesis by (intro nth_equalityI) auto
qed

lemma np_dot_matrix_A_zero:
  assumes "0 < lam" and "np_dot (tridiag n (2 * (1 + lam)) (- lam)) x = Inr (replicate n 0)"
  shows "x = replicate n 0"
proof -
  from assms(2) have len: "length x = n"
    and eq: "replicate n 0 = map (\<lambda>r. dot r x) (tridiag n (2 * (1 + lam)) (- lam))"
    by (auto simp: np_dot_eq_Inr)
  have "dot (tridiag n (2 * (1 + lam)) (- lam) ! i) x = 0" if "i < n" for i
    using arg_cong[OF eq, of "\<lambda>xs. xs ! i"] that by simp
  with assms(1) len show ?thesis by (intro matrix_A_kernel)
qed

text \<open>For \<open>\<lambda> > 0\<close> a system with the matrix A has at most one solution.\<close>

lemma matrix_A_unique:
  assumes lam: "0 < lam"
    and x: "np_dot (tridiag n (2 * (1 + lam)) (- lam)) x = Inr b"
    and y: "np_dot (tridiag n (2 * (1 + lam)) (- lam)) y = Inr b"
  shows "y = x"
proof -
  let ?A = "tridiag n (2 * (1 + lam)) (- lam)"
  from x y have lx: "length x = n" and ly: "length y = n"
    and eq: "map (\<lambda>r. dot r y) ?A = map (\<lambda>r. dot r x) ?A"
    by (auto simp: np_dot_eq_Inr)
  have "map2 (-) y x = replicate n 0"
  proof (rule matrix_A_kernel[OF lam])
    show "length (map2 (-) y x) = n" using lx ly by simp
    fix i assume i: "i < n"
    from arg_cong[OF eq, of "\<lambda>xs. xs ! i"] i have "dot (?A ! i) y = dot (?A ! i) x" by simp
    then show "dot (?A ! i) (map2 (-) y x) = 0" using lx ly by (simp add: dot_diff)
  qed
  then have "\<And>i. i < n \<Longrightarrow> map2 (-) y x ! i = 0" by simp
  then have "\<And>i. i < n \<Longrightarrow> y ! i = x ! i" using lx ly by simp
  with lx ly show ?thesis by (intro nth_equalityI) auto
qed

lemma band_sum:
  fixes f :: "nat \<Rightarrow> real"
  shows "(\<Sum>i = 0..<Suc m. d * f i + (if 0 < i then e * f (i - 1) else 0)
                                   + (if Suc i < Suc m then e * f (Suc i) else 0))
           = (d + 2 * e) * (\<Sum>i = 0..<Suc m. f i) - e * (f 0 + f m)"
proof -
  have a: "(\<Sum>i = 0..<Suc m. if 0 < i then e * f (i - 1) else 0) = e * (\<Sum>i = 0..<m. f i)"
    by (subst sum.atLeast0_lessThan_Suc_shift) (simp add: sum_distrib_left)
  have "(\<Sum>i = 0..<Suc m. if Suc i < Suc m then e * f (Suc i) else 0)
          = (\<Sum>i = 0..<m. if Suc i < Suc m then e * f (Suc i) else 0)"
    by simp
  also have "\<dots> = (\<Sum>i = 0..<m. e * f (Suc i))"
    by (intro sum.cong) auto
  finally have b: "(\<Sum>i = 0..<Suc m. if Suc i < Suc m then e * f (Suc i) else 0)
                     = e * (\<Sum>i = 0..<m. f (Suc i))"
    by (simp add: sum_distrib_left)
  have c: "(\<Sum>i = 0..<Suc m. f i) = (\<Sum>i = 0..<m. f i) + f m" by simp
  have d: "(\<Sum>i = 0..<Suc m. f i) = f 0 + (\<Sum>i = 0..<m. f (Suc i))"
    by (subst sum.atLeast0_lessThan_Suc_shift) simp
  have "(\<Sum>i = 0..<Suc m. d * f i + (if 0 < i then e * f (i - 1) else 0)
                                   + (if Suc i < Suc m then e * f (Suc i) else 0))
          = d * (\<Sum>i = 0..<Suc m. f i) + e * (\<Sum>i = 0..<m. f i) + e * (\<Sum>i = 0..<m. f (Suc i))"
    by (simp only: sum.distrib a b sum_distrib_left)
  also have "\<dots> = (d + 2 * e) * (\<Sum>i = 0..<Suc m. f i) - e * (f 0 + f m)"
  proof -
    define S where "S = (\<Sum>i = 0..<Suc m. f i)"
    have "(\<Sum>i = 0..<m. f i) = S - f m" "(\<Sum>i = 0..<m. f (Suc i)) = S - f 0"
      using c d by (simp_all add: S_def)
    then show ?thesis unfolding S_def[symmetric] by (simp only:) (simp add: algebra_simps)
  qed
  finally show ?thesis .
qed

text \<open>
  The entries of a tridiagonal matrix applied to a vector add up to \<open>d + 2 e\<close> times the
  sum of the vector, less e times its first and its last entry.
\<close>

lemma sum_tridiag_dot:
  assumes "length x = n" and "0 < n"
  shows "sum_list (map (\<lambda>r. dot r x) (tridiag n d e))
           = (d + 2 * e) * sum_list x - e * (hd x + last x)"
proof -
  from assms(2) obtain m where n: "n = Suc m" by (cases n) auto
  have "map (\<lambda>r. dot r x) (tridiag n d e)
          = map (\<lambda>i. d * x ! i + (if 0 < i then e * x ! (i - 1) else 0)
                               + (if Suc i < n then e * x ! Suc i else 0)) [0..<n]"
    using assms by (intro nth_equalityI) (simp_all add: dot_tridiag_row)
  then have "sum_list (map (\<lambda>r. dot r x) (tridiag n d e))
          = (\<Sum>i = 0..<n. d * x ! i + (if 0 < i then e * x ! (i - 1) else 0)
                               + (if Suc i < n then e * x ! Suc i else 0))"
    by (simp add: interv_sum_list_conv_sum_set_nat)
  also have "\<dots> = (d + 2 * e) * (\<Sum>i = 0..<n. x ! i) - e * (x ! 0 + x ! m)"
    unfolding n by (rule band_sum)
  also have "(\<Sum>i = 0..<n. x ! i) = sum_list x"
    using assms(1) by (simp add: sum_list_sum_nth)
  finally have "sum_list (map (\<lambda>r. dot r x) (tridiag n d e))
                  = (d + 2 * e) * sum_list x - e * (x ! 0 + x ! m)" .
  moreover have "x \<noteq> []" using assms by auto
  then have "hd x = x ! 0" "last x = x ! m"
    using assms(1) n by (simp_all add: hd_conv_nth last_conv_nth)
  ultimately show ?thesis by simp
qed

section \<open>The reference solver\<close>

lemma dot_eliminate:
  "length r = length s \<Longrightarrow> dot (map2 (\<lambda>x y. x - f * y) r s) v = dot r v - f * dot s v"
proof (induction r s arbitrary: v rule: list_induct2)
  case Nil
  then show ?case by simp
next
  case (Cons x xs y ys)
  then show ?case by (cases v) (simp_all add: algebra_simps)
qed

lemma pivot_set:
  "pivot p qs = (m, rest) \<Longrightarrow> set (m # rest) = set (p # qs) \<and> length rest = length qs"
proof (induction qs arbitrary: p m rest)
  case Nil
  then show ?case by auto
next
  case (Cons q qs)
  show ?case
  proof (cases "\<bar>lead p\<bar> < \<bar>lead q\<bar>")
    case True
    with Cons.prems obtain rest' where "pivot q qs = (m, rest')" "rest = p # rest'"
      by (auto split: prod.splits)
    with Cons.IH[of q m rest'] show ?thesis by auto
  next
    case False
    with Cons.prems obtain rest' where "pivot p qs = (m, rest')" "rest = q # rest'"
      by (auto split: prod.splits)
    with Cons.IH[of p m rest'] show ?thesis by auto
  qed
qed

lemma pivot_max:
  "pivot p qs = (m, rest) \<Longrightarrow> \<forall>q\<in>set (p # qs). \<bar>lead q\<bar> \<le> \<bar>lead m\<bar>"
proof (induction qs arbitrary: p m rest)
  case Nil
  then show ?case by auto
next
  case (Cons q qs)
  show ?case
  proof (cases "\<bar>lead p\<bar> < \<bar>lead q\<bar>")
    case True
    with Cons.prems obtain rest' where "pivot q qs = (m, rest')"
      by (auto split: prod.splits)
    from Cons.IH[OF this] True show ?thesis by auto
  next
    case False
    with Cons.prems obtain rest' where "pivot p qs = (m, rest')"
      by (auto split: prod.splits)
    from Cons.IH[OF this] False show ?thesis by auto
  qed
qed

lemma gauss_sound:
  assumes "gauss n rows = Some xs" and "length rows = n" and "\<forall>q\<in>set rows. length (fst q) = n"
  shows "length xs = n \<and> (\<forall>q\<in>set rows. dot (fst q) xs = snd q)"
  using assms
proof (induction n arbitrary: rows xs)
  case 0
  then show ?case by simp
next
  case (Suc n)
  from Suc.prems(2) obtain p qs where rows: "rows = p # qs" by (cases rows) auto
  obtain m rest where pv: "pivot p qs = (m, rest)" by (cases "pivot p qs")
  from pivot_set[OF pv] rows have set: "set rows = insert m (set rest)" and lr: "length rest = length qs"
    by auto
  from Suc.prems(1) rows pv obtain ys where nz: "lead m \<noteq> 0"
    and g: "gauss n (map (eliminate m) rest) = Some ys"
    and xs: "xs = (snd m - dot (tl (fst m)) ys) / lead m # ys"
    by (auto split: if_splits option.splits)
  have lenm: "length (fst m) = Suc n" using Suc.prems(3) set by auto
  then obtain a ms where m: "fst m = a # ms" and lms: "length ms = n" by (cases "fst m") auto
  have a: "lead m = a" by (simp add: lead_def m)
  have "length ys = n \<and> (\<forall>q\<in>set (map (eliminate m) rest). dot (fst q) ys = snd q)"
  proof (rule Suc.IH[OF g])
    show "length (map (eliminate m) rest) = n" using lr Suc.prems(2) rows by simp
    show "\<forall>q\<in>set (map (eliminate m) rest). length (fst q) = n"
    proof
      fix q assume "q \<in> set (map (eliminate m) rest)"
      then obtain q' where q': "q' \<in> set rest" "q = eliminate m q'" by auto
      then have "length (fst q') = Suc n" using Suc.prems(3) set by auto
      with q' lms m show "length (fst q) = n" by (simp add: eliminate_def Let_def)
    qed
  qed
  then have lys: "length ys = n" and sub: "\<And>q. q \<in> set rest \<Longrightarrow> dot (fst (eliminate m q)) ys = snd (eliminate m q)"
    by auto
  have pm: "dot (fst m) xs = snd m" using nz a by (simp add: m xs)
  have pq: "dot (fst q) xs = snd q" if q: "q \<in> set rest" for q
  proof -
    from q have "length (fst q) = Suc n" using Suc.prems(3) set by auto
    then obtain c cs where qc: "fst q = c # cs" and lcs: "length cs = n" by (cases "fst q") auto
    have lq: "lead q = c" by (simp add: lead_def qc)
    from sub[OF q]
    have "dot (map2 (\<lambda>x y. x - lead q / lead m * y) (tl (fst q)) (tl (fst m))) ys
            = snd q - lead q / lead m * snd m"
      by (simp only: eliminate_def Let_def fst_conv snd_conv)
    moreover have "length (tl (fst q)) = length (tl (fst m))"
      using lcs lms by (simp add: qc m)
    ultimately have "dot cs ys - c / a * dot ms ys = snd q - c / a * snd m"
      by (simp only: dot_eliminate qc m lq a list.sel)
    then show ?thesis using nz a by (simp add: qc xs m field_simps)
  qed
  from lys pm pq show ?case by (auto simp: set xs)
qed

lemma lu_solve_sound: "solver_sound lu_solve"
  unfolding solver_sound_def
proof (intro allI impI)
  fix A b x assume s: "lu_solve A b = Inr x"
  then have sq: "list_all (\<lambda>r. length r = length A) A" and lb: "length b = length A"
    and g: "gauss (length A) (zip A b) = Some x"
    by (auto simp: lu_solve_def split: if_splits option.splits)
  have "length x = length A \<and> (\<forall>q\<in>set (zip A b). dot (fst q) x = snd q)"
    using sq lb by (intro gauss_sound[OF g]) (auto simp: list_all_iff dest: set_zip_leftD)
  then have lx: "length x = length A" and eq: "\<And>i. i < length A \<Longrightarrow> dot (A ! i) x = b ! i"
    using lb by (auto simp: set_zip)
  have "map (\<lambda>r. dot r x) A = b"
    using lb eq by (intro nth_equalityI) auto
  moreover have "ncols A = length x" using sq lx by (cases A) (auto simp: ncols_def)
  ultimately show "np_dot A x = Inr b"
    using sq lx by (simp add: np_dot_def)
qed

text \<open>
  When the elimination finds no pivot, the matrix annihilates a vector other than zero.
\<close>

lemma gauss_None_kernel:
  assumes "gauss n rows = None" and "length rows = n" and "\<forall>q\<in>set rows. length (fst q) = n"
  shows "\<exists>x. length x = n \<and> x \<noteq> replicate n 0 \<and> (\<forall>q\<in>set rows. dot (fst q) x = 0)"
  using assms
proof (induction n arbitrary: rows)
  case 0
  then show ?case by simp
next
  case (Suc n)
  from Suc.prems(2) obtain p qs where rows: "rows = p # qs" by (cases rows) auto
  obtain m rest where pv: "pivot p qs = (m, rest)" by (cases "pivot p qs")
  from pivot_set[OF pv] rows have set: "set rows = insert m (set rest)" and lr: "length rest = length qs"
    by auto
  have len: "\<And>q. q \<in> set rows \<Longrightarrow> \<exists>c cs. fst q = c # cs \<and> length cs = n \<and> lead q = c"
  proof -
    fix q assume "q \<in> set rows"
    with Suc.prems(3) have "length (fst q) = Suc n" by auto
    then obtain c cs where "fst q = c # cs" "length cs = n" by (cases "fst q") auto
    then show "\<exists>c cs. fst q = c # cs \<and> length cs = n \<and> lead q = c" by (simp add: lead_def)
  qed
  show ?case
  proof (cases "lead m = 0")
    case True
    have "dot (fst q) (1 # replicate n 0) = 0" if "q \<in> set rows" for q
    proof -
      from len[OF that] obtain c cs where q: "fst q = c # cs" "lead q = c" by blast
      from pivot_max[OF pv] that rows True have "lead q = 0" by auto
      with q show ?thesis by simp
    qed
    then show ?thesis
      by (intro exI[of _ "1 # replicate n 0"]) simp
  next
    case False
    with Suc.prems(1) rows pv have g: "gauss n (map (eliminate m) rest) = None"
      by (auto split: option.splits)
    from len[of m] set obtain a ms where m: "fst m = a # ms" and lms: "length ms = n" and a: "lead m = a"
      by auto
    have "\<exists>ys. length ys = n \<and> ys \<noteq> replicate n 0
             \<and> (\<forall>q\<in>set (map (eliminate m) rest). dot (fst q) ys = 0)"
    proof (rule Suc.IH[OF g])
      show "length (map (eliminate m) rest) = n" using lr Suc.prems(2) rows by simp
      show "\<forall>q\<in>set (map (eliminate m) rest). length (fst q) = n"
      proof
        fix q assume "q \<in> set (map (eliminate m) rest)"
        then obtain q' where q': "q' \<in> set rest" "q = eliminate m q'" by auto
        with len[of q'] set obtain c cs where "fst q' = c # cs" "length cs = n" by auto
        with q' lms m show "length (fst q) = n" by (simp add: eliminate_def Let_def)
      qed
    qed
    then obtain ys where lys: "length ys = n" and nz: "ys \<noteq> replicate n 0"
      and sub: "\<And>q. q \<in> set rest \<Longrightarrow> dot (fst (eliminate m q)) ys = 0" by auto
    define x where "x = (- dot ms ys / a) # ys"
    have pm: "dot (fst m) x = 0" using False a by (simp add: m x_def)
    have pq: "dot (fst q) x = 0" if q: "q \<in> set rest" for q
    proof -
      from len[of q] q set obtain c cs where qc: "fst q = c # cs" and lcs: "length cs = n"
        and lq: "lead q = c" by auto
      from sub[OF q]
      have "dot (map2 (\<lambda>x y. x - lead q / lead m * y) (tl (fst q)) (tl (fst m))) ys = 0"
        by (simp only: eliminate_def Let_def fst_conv)
      moreover have "length (tl (fst q)) = length (tl (fst m))"
        using lcs lms by (simp add: qc m)
      ultimately have "dot cs ys - c / a * dot ms ys = 0"
        by (simp only: dot_eliminate qc m lq a list.sel)
      then show ?thesis using False a by (simp add: qc x_def field_simps)
    qed
    from lys nz pm pq show ?thesis
      by (intro exI[of _ x]) (auto simp: set x_def)
  qed
qed

text \<open>For \<open>\<lambda> > 0\<close> the reference solver solves every system with the matrix A.\<close>

lemma lu_solve_matrix_A:
  assumes lam: "0 < lam" and b: "length b = n"
  shows "\<exists>x. lu_solve (tridiag n (2 * (1 + lam)) (- lam)) b = Inr x"
proof -
  let ?A = "tridiag n (2 * (1 + lam)) (- lam)"
  have sq: "list_all (\<lambda>r. length r = length ?A) ?A" by (simp add: list_all_length)
  have "gauss n (zip ?A b) \<noteq> None"
  proof
    assume "gauss n (zip ?A b) = None"
    then have "\<exists>x. length x = n \<and> x \<noteq> replicate n 0 \<and> (\<forall>q\<in>set (zip ?A b). dot (fst q) x = 0)"
      using b by (intro gauss_None_kernel) (auto simp: set_zip)
    then obtain x where x: "length x = n" "x \<noteq> replicate n 0"
      and k: "\<And>q. q \<in> set (zip ?A b) \<Longrightarrow> dot (fst q) x = 0" by blast
    have "dot (?A ! i) x = 0" if "i < n" for i
      using k[of "(?A ! i, b ! i)"] that b by (auto simp: set_zip)
    with matrix_A_kernel[OF lam x(1)] x(2) show False by blast
  qed
  with sq b show ?thesis by (auto simp: lu_solve_def)
qed

section \<open>The field buffer and the loop\<close>

lemma interior_Cons_snoc [simp]: "interior (a # w @ [z]) = w"
  by (simp add: interior_def)

lemma row_shape:
  assumes "2 \<le> length row"
  obtains a mid z where "row = a # mid @ [z]"
proof -
  from assms obtain a t where row: "row = a # t"
    by (cases row) auto
  with assms have t: "t \<noteq> []" by auto
  from t obtain mid z where "t = mid @ [z]"
    by (cases t rule: rev_cases) auto
  with row that show thesis by simp
qed

lemma assign_interior_long:
  "assign_interior (a # mid @ [z]) v =
     (if length v = length mid then Inr (a # v @ [z])
      else if length v = 1 then Inr (a # replicate (length mid) (hd v) @ [z])
      else Inl ValueError)"
  by (simp add: assign_interior_def)

lemma assign_interior_short:
  "length row < 2 \<Longrightarrow>
   assign_interior row v = (if length v = 0 \<or> length v = 1 then Inr row else Inl ValueError)"
  by (cases row) (auto simp: assign_interior_def)

lemma assign_interior_result:
  assumes "assign_interior row v = Inr row'"
  shows "length row' = length row"
    and "interior row' = (if length v = length row - 2 then v else replicate (length row - 2) (hd v))"
    and "row' ! 0 = row ! 0"
    and "row' ! (length row - 1) = row ! (length row - 1)"
proof -
  have "length row' = length row
      \<and> interior row' = (if length v = length row - 2 then v else replicate (length row - 2) (hd v))
      \<and> row' ! 0 = row ! 0 \<and> row' ! (length row - 1) = row ! (length row - 1)"
  proof (cases "2 \<le> length row")
    case True
    then obtain a mid z where row: "row = a # mid @ [z]" by (rule row_shape)
    show ?thesis using assms unfolding row assign_interior_long
      by (auto simp: nth_append split: if_splits)
  next
    case False
    then have "length row < 2" by simp
    from assign_interior_short[OF this, of v] assms have "row' = row" "length v = 0 \<or> length v = 1"
      by (auto split: if_splits)
    moreover have "interior row = []" using False by (cases row) (auto simp: interior_def not_le)
    ultimately show ?thesis using False by auto
  qed
  then show "length row' = length row"
    and "interior row' = (if length v = length row - 2 then v else replicate (length row - 2) (hd v))"
    and "row' ! 0 = row ! 0"
    and "row' ! (length row - 1) = row ! (length row - 1)" by simp_all
qed

lemma replicate_ends:
  assumes "2 \<le> n"
  shows "replicate n a = a # replicate (n - 2) a @ [a]"
proof -
  from assms obtain k where "n = Suc (Suc k)"
    by (metis add_2_eq_Suc le_Suc_ex)
  then show ?thesis by (simp add: replicate_append_same)
qed

lemma assign_interior_zeros:
  assumes "2 \<le> nx"
  shows "assign_interior (replicate nx 0) (replicate (nx - 2) 0) = Inr (replicate nx 0)"
  by (simp add: replicate_ends[OF assms, of "0::real"] assign_interior_long)

text \<open>One pass of the loop succeeds exactly when each of its four statements does.\<close>

lemma step_eq_Inr:
  "step solve A B l u = Inr u' \<longleftrightarrow>
     Suc l < length u \<and>
     (\<exists>b sol row. np_dot B (interior (u ! l)) = Inr b \<and> solve A b = Inr sol
        \<and> assign_interior (u ! Suc l) sol = Inr row \<and> u' = u[Suc l := row])"
  by (auto simp: step_def ebind_eq_Inr)

lemma step_frame:
  assumes "step solve A B l u = Inr u'"
  shows "length u' = length u"
    and "r \<noteq> Suc l \<Longrightarrow> u' ! r = u ! r"
    and "length (u' ! r) = length (u ! r)"
    and "u' ! r ! 0 = u ! r ! 0"
    and "u' ! r ! (length (u ! r) - 1) = u ! r ! (length (u ! r) - 1)"
proof -
  from assms obtain b sol row where l: "Suc l < length u"
    and row: "assign_interior (u ! Suc l) sol = Inr row" and u': "u' = u[Suc l := row]"
    unfolding step_eq_Inr by blast
  note ai = assign_interior_result[OF row]
  show "length u' = length u" by (simp add: u')
  show "r \<noteq> Suc l \<Longrightarrow> u' ! r = u ! r" by (simp add: u')
  show "length (u' ! r) = length (u ! r)" using l ai(1) by (cases "r = Suc l") (simp_all add: u')
  show "u' ! r ! 0 = u ! r ! 0" using l ai(3) by (cases "r = Suc l") (simp_all add: u')
  show "u' ! r ! (length (u ! r) - 1) = u ! r ! (length (u ! r) - 1)"
    using l ai(4) by (cases "r = Suc l") (simp_all add: u')
qed

lemma time_loop_append:
  "time_loop solve A B (xs @ ys) u =
     (case time_loop solve A B xs u of
        (None, v) \<Rightarrow> time_loop solve A B ys v
      | (Some e, v) \<Rightarrow> (Some e, v))"
  by (induction xs arbitrary: u) (auto split: sum.splits)

text \<open>A property that every pass keeps holds of the buffer the loop leaves.\<close>

lemma time_loop_invariant:
  assumes "P u" and "\<And>l v v'. P v \<Longrightarrow> step solve A B l v = Inr v' \<Longrightarrow> P v'"
  shows "P (snd (time_loop solve A B ls u))"
  using assms(1)
proof (induction ls arbitrary: u)
  case Nil
  then show ?case by simp
next
  case (Cons l ls)
  show ?case
  proof (cases "step solve A B l u")
    case (Inl e)
    with Cons.prems show ?thesis by simp
  next
    case (Inr u')
    with Cons.prems have "P u'" by (blast intro: assms(2))
    with Inr Cons.IH show ?thesis by simp
  qed
qed

text \<open>Rows that no pass of the loop writes stay as they are.\<close>

lemma time_loop_untouched:
  assumes "\<forall>l\<in>set ls. r \<noteq> Suc l"
  shows "snd (time_loop solve A B ls u) ! r = u ! r"
  using assms
proof (induction ls arbitrary: u)
  case Nil
  then show ?case by simp
next
  case (Cons l ls)
  then show ?case
    by (cases "step solve A B l u") (simp_all add: step_frame(2))
qed

lemma upt_split_at:
  assumes "l < m"
  shows "[0..<m] = [0..<l] @ l # [Suc l..<m]"
proof -
  have "[0..<m] = [0..<l] @ [l..<m]"
    using assms upt_add_eq_append[of 0 l "m - l"] by simp
  with assms show ?thesis by (simp add: upt_conv_Cons)
qed

text \<open>
  The loop at the pass for the index l: the passes before it have left a well-shaped
  buffer, the pass itself succeeds, and the later passes touch neither row l nor row l + 1.
\<close>

lemma time_loop_pass:
  assumes t: "time_loop solve A B [0..<m] v0 = (None, u)" and l: "l < m"
  obtains v1 where "time_loop solve A B [0..<l] v0 = (None, v1)"
    and "step solve A B l v1 = Inr (v1[Suc l := u ! Suc l])"
    and "Suc l < length v1" and "u ! l = v1 ! l"
proof -
  have "[0..<m] = [0..<l] @ [l..<m]"
    using l upt_add_eq_append[of 0 l "m - l"] by simp
  with l have split: "[0..<m] = [0..<l] @ l # [Suc l..<m]"
    by (simp add: upt_conv_Cons)
  obtain r v1 where p: "time_loop solve A B [0..<l] v0 = (r, v1)"
    by (cases "time_loop solve A B [0..<l] v0")
  from t have r: "r = None" and t2: "time_loop solve A B (l # [Suc l..<m]) v1 = (None, u)"
    unfolding split time_loop_append p by (cases r; simp)+
  from t2 obtain v2 where s: "step solve A B l v1 = Inr v2"
    and t3: "time_loop solve A B [Suc l..<m] v2 = (None, u)"
    by (cases "step solve A B l v1") auto
  have ul: "u ! k = v2 ! k" if "k \<le> Suc l" for k
    using time_loop_untouched[of "[Suc l..<m]" k solve A B v2] that t3 by auto
  from s have ll: "Suc l < length v1" and "\<exists>row. v2 = v1[Suc l := row]"
    unfolding step_eq_Inr by blast+
  then obtain row where v2: "v2 = v1[Suc l := row]" by blast
  with ul[of "Suc l"] ll have "row = u ! Suc l" by simp
  with v2 s have "step solve A B l v1 = Inr (v1[Suc l := u ! Suc l])" by simp
  moreover have "u ! l = v1 ! l" using ul[of l] v2 by simp
  ultimately show thesis using that p r ll by blast
qed

lemma time_loop_completes:
  assumes "P u" and "\<And>l v. l \<in> set ls \<Longrightarrow> P v \<Longrightarrow> \<exists>v'. step solve A B l v = Inr v' \<and> P v'"
  shows "\<exists>u'. time_loop solve A B ls u = (None, u')"
  using assms
proof (induction ls arbitrary: u)
  case Nil
  then show ?case by simp
next
  case (Cons l ls)
  from Cons.prems(2)[of l u] Cons.prems(1) obtain v where v: "step solve A B l u = Inr v" "P v"
    by auto
  from Cons.IH[OF v(2)] Cons.prems(2) v(1) show ?case by simp
qed

lemma boundary_row_props:
  assumes "2 \<le> nx"
  shows "length (boundary_row nx BCs) = nx"
    and "boundary_row nx BCs ! 0 = fst BCs"
    and "boundary_row nx BCs ! (nx - 1) = snd BCs"
    and "interior (boundary_row nx BCs) = replicate (nx - 2) 0"
proof -
  show "length (boundary_row nx BCs) = nx" by (simp add: boundary_row_def)
  show "boundary_row nx BCs ! 0 = fst BCs" using assms by (simp add: boundary_row_def nth_list_update)
  show "boundary_row nx BCs ! (nx - 1) = snd BCs" using assms by (simp add: boundary_row_def)
  show "interior (boundary_row nx BCs) = replicate (nx - 2) 0"
    using assms by (intro nth_equalityI) (auto simp: interior_def boundary_row_def nth_butlast nth_tl nth_list_update)
qed

text \<open>The statements before the loop, with the matrices in closed form.\<close>

lemma prelude_unfold:
  "prelude nx nt D BCs u0 =
     ebind (dx nx) (\<lambda>h. ebind (dt nt) (\<lambda>k. ebind (lbd D k h) (\<lambda>lam.
       if nx = 0 \<or> nt = 0 then Inl IndexError
       else ebind (assign_interior (boundary_row nx BCs) u0) (\<lambda>row0.
         Inr (lam, (replicate nt (boundary_row nx BCs))[0 := row0],
              tridiag (nx - 2) (2 * (1 + lam)) (- lam), tridiag (nx - 2) (2 * (1 - lam)) lam)))))"
  by (auto simp: prelude_def set_first_column_def set_last_column_def zeros_def boundary_row_def
        matrix_A_tridiag matrix_B_tridiag
      intro!: arg_cong2[where f = ebind] ext)

lemma prelude_eq_Inr:
  assumes "prelude nx nt D BCs u0 = Inr (lam, u, A, B)"
  shows "2 \<le> nx" and "2 \<le> nt"
    and "lam = D * (1 / (real nt - 1)) / (1 / (real nx - 1)) ^ 2"
    and "A = tridiag (nx - 2) (2 * (1 + lam)) (- lam)"
    and "B = tridiag (nx - 2) (2 * (1 - lam)) lam"
    and "\<exists>row0. assign_interior (boundary_row nx BCs) u0 = Inr row0
            \<and> u = (replicate nt (boundary_row nx BCs))[0 := row0]"
proof -
  from assms obtain h k row0 where h: "dx nx = Inr h" and k: "dt nt = Inr k"
    and lam: "lbd D k h = Inr lam" and nx0: "nx \<noteq> 0" and nt0: "nt \<noteq> 0"
    and row0: "assign_interior (boundary_row nx BCs) u0 = Inr row0"
    and u: "u = (replicate nt (boundary_row nx BCs))[0 := row0]"
    and A: "matrix_A lam nx = Inr A" and B: "matrix_B lam nx = Inr B"
    by (auto simp: prelude_def ebind_eq_Inr set_first_column_def set_last_column_def zeros_def
          boundary_row_def split: if_splits)
  from h nx0 show "2 \<le> nx" by (auto simp: dx_def split: if_splits)
  from k nt0 show "2 \<le> nt" by (auto simp: dt_def split: if_splits)
  from h k lam show "lam = D * (1 / (real nt - 1)) / (1 / (real nx - 1)) ^ 2"
    by (auto simp: dx_def dt_def lbd_def split: if_splits)
  from A show "A = tridiag (nx - 2) (2 * (1 + lam)) (- lam)" by (simp add: matrix_A_tridiag)
  from B show "B = tridiag (nx - 2) (2 * (1 - lam)) lam" by (simp add: matrix_B_tridiag)
  from row0 u show "\<exists>row0. assign_interior (boundary_row nx BCs) u0 = Inr row0
            \<and> u = (replicate nt (boundary_row nx BCs))[0 := row0]" by blast
qed

lemma lam_positive:
  assumes "prelude nx nt D BCs u0 = Inr (lam, v, A, B)" and "0 < D"
  shows "0 < lam"
proof -
  note p = prelude_eq_Inr[OF assms(1)]
  have "0 < real nt - 1" "0 < real nx - 1" using p(1,2) by simp_all
  with assms(2) show ?thesis unfolding p(3) by simp
qed

lemma prelude_bounded_by:
  assumes "prelude nx nt D BCs u0 = Inr (lam, u, A, B)"
  shows "bounded_by nt nx BCs u"
proof -
  note p = prelude_eq_Inr[OF assms]
  from p(6) obtain row0 where row0: "assign_interior (boundary_row nx BCs) u0 = Inr row0"
    and u: "u = (replicate nt (boundary_row nx BCs))[0 := row0]" by blast
  note ai = assign_interior_result[OF row0] and br = boundary_row_props[OF p(1), of BCs]
  show ?thesis unfolding bounded_by_def u
    using ai(1,3,4) br(1-3) by (auto simp: nth_list_update)
qed

lemma step_bounded_by:
  assumes "bounded_by nt nx BCs v" and "step solve A B l v = Inr v'"
  shows "bounded_by nt nx BCs v'"
  using assms(1) step_frame[OF assms(2)]
  by (auto simp: bounded_by_def)

lemma heat_equation_1d_eq_Inr:
  "heat_equation_1d solve nx nt D BCs u0 = Inr u \<longleftrightarrow>
     (\<exists>lam v A B. prelude nx nt D BCs u0 = Inr (lam, v, A, B)
        \<and> time_loop solve A B [0..<nt - 1] v = (None, u))"
proof (cases "prelude nx nt D BCs u0")
  case (Inl e)
  then show ?thesis by (simp add: heat_equation_1d_def)
next
  case (Inr p)
  obtain lam v A B where p: "p = (lam, v, A, B)" by (cases p)
  obtain r w where t: "time_loop solve A B [0..<nt - 1] v = (r, w)" by force
  show ?thesis using Inr p t by (cases r) (simp_all add: heat_equation_1d_def)
qed

text \<open>
  A pass of a completed run, with a solver that returns solutions: the interior of
  snapshot \<open>l + 1\<close> is the solver's answer to the right-hand side formed from the interior
  of snapshot \<open>l\<close>.
\<close>

lemma pass_solution:
  assumes run: "heat_equation_1d solve nx nt D BCs u0 = Inr u"
    and sound: "solver_sound solve" and l: "l < nt - 1"
  obtains lam v b where "prelude nx nt D BCs u0
        = Inr (lam, v, tridiag (nx - 2) (2 * (1 + lam)) (- lam), tridiag (nx - 2) (2 * (1 - lam)) lam)"
    and "length (interior (u ! l)) = nx - 2"
    and "np_dot (tridiag (nx - 2) (2 * (1 - lam)) lam) (interior (u ! l)) = Inr b"
    and "solve (tridiag (nx - 2) (2 * (1 + lam)) (- lam)) b = Inr (interior (u ! Suc l))"
    and "np_dot (tridiag (nx - 2) (2 * (1 + lam)) (- lam)) (interior (u ! Suc l)) = Inr b"
proof -
  from run obtain lam v0 A B where p: "prelude nx nt D BCs u0 = Inr (lam, v0, A, B)"
    and t: "time_loop solve A B [0..<nt - 1] v0 = (None, u)"
    unfolding heat_equation_1d_eq_Inr by blast
  note pre = prelude_eq_Inr[OF p]
  from time_loop_pass[OF t l] obtain v1 where t1: "time_loop solve A B [0..<l] v0 = (None, v1)"
    and s: "step solve A B l v1 = Inr (v1[Suc l := u ! Suc l])"
    and ll: "Suc l < length v1" and ul: "u ! l = v1 ! l" by blast
  have "bounded_by nt nx BCs (snd (time_loop solve A B [0..<l] v0))"
    by (rule time_loop_invariant[where P = "bounded_by nt nx BCs"])
       (auto intro: prelude_bounded_by[OF p] step_bounded_by)
  with t1 have b1: "bounded_by nt nx BCs v1" by simp
  from s obtain b sol row where b: "np_dot B (interior (v1 ! l)) = Inr b"
    and sol: "solve A b = Inr sol" and row: "assign_interior (v1 ! Suc l) sol = Inr row"
    and upd: "v1[Suc l := u ! Suc l] = v1[Suc l := row]"
    unfolding step_eq_Inr by blast
  from upd ll have urow: "u ! Suc l = row"
    by (metis nth_list_update_eq)
  from sound sol have Ax: "np_dot A sol = Inr b" by (simp add: solver_sound_def)
  then have "length sol = nx - 2" by (simp add: pre(4) np_dot_eq_Inr)
  moreover have "length (v1 ! Suc l) = nx" "length (v1 ! l) = nx"
    using b1 ll by (simp_all add: bounded_by_def)
  ultimately have "interior row = sol" "length (interior (u ! l)) = nx - 2"
    using assign_interior_result(2)[OF row] ul by simp_all
  with p b sol Ax urow ul pre(4,5) that[of lam v0 b] show thesis
    by simp
qed

text \<open>
  With the reference solver the script runs to its end on every grid with \<open>nx, nt \<ge> 2\<close>,
  \<open>D > 0\<close> and an initial field of \<open>nx - 2\<close> values.
\<close>

lemma run_completes:
  assumes nx: "2 \<le> nx" and nt: "2 \<le> nt" and D: "0 < D" and u0: "length u0 = nx - 2"
  shows "\<exists>u. heat_equation_1d lu_solve nx nt D BCs u0 = Inr u"
proof -
  have lb: "length (interior (boundary_row nx BCs)) = nx - 2" by (simp add: boundary_row_def)
  obtain lam u A B where p: "prelude nx nt D BCs u0 = Inr (lam, u, A, B)"
    using nx nt u0 lb
    by (auto simp: prelude_unfold dx_def dt_def lbd_def assign_interior_def Let_def)
  note pre = prelude_eq_Inr[OF p]
  have lam: "0 < lam" by (rule lam_positive[OF p D])
  have pass: "\<exists>v'. step lu_solve A B l v = Inr v' \<and> bounded_by nt nx BCs v'"
    if l: "l \<in> set [0..<nt - 1]" and v: "bounded_by nt nx BCs v" for l v
  proof -
    from l v have ll: "Suc l < length v" and rl: "length (v ! l) = nx" "length (v ! Suc l) = nx"
      by (auto simp: bounded_by_def)
    obtain b where b: "np_dot B (interior (v ! l)) = Inr b" and lenb: "length b = nx - 2"
      using rl by (simp add: pre(5) np_dot_tridiag)
    from lu_solve_matrix_A[OF lam lenb] obtain sol where sol: "lu_solve A b = Inr sol"
      unfolding pre(4) by blast
    with lu_solve_sound have "np_dot A sol = Inr b" by (simp add: solver_sound_def)
    then have "length sol = nx - 2" by (auto simp: pre(4) np_dot_eq_Inr)
    then obtain row where row: "assign_interior (v ! Suc l) sol = Inr row"
      using rl by (simp add: assign_interior_def)
    with ll b sol have s: "step lu_solve A B l v = Inr (v[Suc l := row])"
      by (simp add: step_def)
    with step_bounded_by[OF v s] show ?thesis by blast
  qed
  from time_loop_completes[of "bounded_by nt nx BCs" u "[0..<nt - 1]" lu_solve A B,
      OF prelude_bounded_by[OF p] pass]
  obtain u' where "time_loop lu_solve A B [0..<nt - 1] u = (None, u')" by blast
  with p show ?thesis by (auto simp: heat_equation_1d_eq_Inr)
qed

section \<open>The grid\<close>

text \<open>
  Claim C6. On every grid with at least one interior point and at least one step, the
  script's \<open>dx\<close> is the space length over \<open>interior_count + 1\<close>, its \<open>dt\<close> is the
  total time over \<open>step_count\<close>, and \<open>lbd\<close>, the \<open>\<lambda>\<close> that the run uses, is
  \<open>D * dt / dx^2\<close>. Both the space length and the total time are 1 in the script.
\<close>

theorem grid_derived_quantities:
  assumes "1 \<le> interior_count nx" and "1 \<le> step_count nt"
  shows "\<exists>h k T. dx nx = Inr h \<and> dt nt = Inr k \<and> total_time nt = Inr T
           \<and> space_length nx = 1 \<and> T = 1
           \<and> h = space_length nx / (real (interior_count nx) + 1)
           \<and> k = T / real (step_count nt)
           \<and> lbd D k h = Inr (D * k / h ^ 2)
           \<and> (\<forall>BCs u0 lam u A B.
                 prelude nx nt D BCs u0 = Inr (lam, u, A, B) \<longrightarrow> lam = D * k / h ^ 2)"
proof -
  from assms have nx: "3 \<le> nx" and nt: "2 \<le> nt" by (simp_all add: grid_views)
  let ?h = "1 / (real nx - 1)" and ?k = "1 / (real nt - 1)"
  have h: "dx nx = Inr ?h" using nx by (simp add: dx_def)
  have k: "dt nt = Inr ?k" using nt by (simp add: dt_def)
  have T: "total_time nt = Inr 1"
    using nt by (simp add: total_time_def k frame_time_def of_nat_diff)
  have sl: "space_length nx = 1" using nx by (simp add: grid_views)
  have hq: "?h = space_length nx / (real (interior_count nx) + 1)"
    using nx by (simp add: sl grid_views of_nat_diff)
  have kq: "?k = 1 / real (step_count nt)"
    using nt by (simp add: grid_views of_nat_diff)
  have l: "lbd D ?k ?h = Inr (D * ?k / ?h ^ 2)" using nx by (simp add: lbd_def)
  have p: "lam = D * ?k / ?h ^ 2" if "prelude nx nt D BCs u0 = Inr (lam, u, A, B)"
    for BCs u0 lam u A B
    using prelude_eq_Inr(3)[OF that] .
  have pq: "\<forall>BCs u0 lam u A B.
              prelude nx nt D BCs u0 = Inr (lam, u, A, B) \<longrightarrow> lam = D * ?k / ?h ^ 2"
    using p by (intro allI impI)
  have one: "(1::real) = 1" by simp
  show ?thesis
    by (rule exI[of _ ?h], rule exI[of _ ?k], rule exI[of _ 1])
       (intro conjI h k T sl hq kq l pq one)
qed

theorem grid_derived_quantities_witness:
  "1 \<le> interior_count 501 \<and> 1 \<le> step_count 501
   \<and> (\<exists>h k T. dx 501 = Inr h \<and> dt 501 = Inr k \<and> total_time 501 = Inr T
           \<and> space_length 501 = 1 \<and> T = 1
           \<and> h = space_length 501 / (real (interior_count 501) + 1)
           \<and> k = T / real (step_count 501)
           \<and> lbd 1 k h = Inr (1 * k / h ^ 2)
           \<and> (\<forall>BCs u0 lam u A B.
                 prelude 501 501 1 BCs u0 = Inr (lam, u, A, B) \<longrightarrow> lam = 1 * k / h ^ 2))"
proof -
  have h: "1 \<le> interior_count 501" "1 \<le> step_count 501" by (simp_all add: grid_views)
  show ?thesis by (intro conjI) (rule h grid_derived_quantities[OF h, of 1])+
qed

section \<open>Concrete runs\<close>

text \<open>
  Runs of the script with the reference solver: five grid points and three snapshots,
  with \<open>D = 1/4\<close> and hence \<open>\<lambda> = 2\<close>; and three grid points, where \<open>\<lambda> = 2 D\<close>.
\<close>

lemmas run_defs = heat_equation_1d_def prelude_def ebind_def dx_def dt_def lbd_def
  set_first_column_def set_last_column_def zeros_def assign_interior_def interior_def
  matrix_A_def matrix_B_def np_add_def np_diag_def bdim_def ncols_def stretch_def
  step_def np_dot_def dot_def lu_solve_def lead_def eliminate_def upt_rec
  numeral_2_eq_2 numeral_3_eq_3

lemma example_run:
  "heat_equation_1d lu_solve 5 3 (1 / 4) (0, 0) [1, 0, - 1]
     = Inr [[0, 1, 0, - 1, 0], [0, - (1 / 3), 0, 1 / 3, 0], [0, 1 / 9, 0, - (1 / 9), 0]]"
  by (simp add: run_defs eval_nat_numeral)

lemma example_run_bounded:
  "heat_equation_1d lu_solve 5 3 (1 / 4) (7, 9) [1, 0, - 1]
     = Inr [[7, 1, 0, - 1, 9], [7, - (1 / 3), 0, 1 / 3, 9], [7, 1 / 9, 0, - (1 / 9), 9]]"
  by (simp add: run_defs eval_nat_numeral)

lemma example_prelude:
  "prelude 5 3 (1 / 4) (0, 0) [1, 0, - 1]
     = Inr (2, [[0, 1, 0, - 1, 0], [0, 0, 0, 0, 0], [0, 0, 0, 0, 0]],
            [[6, - 2, 0], [- 2, 6, - 2], [0, - 2, 6]], [[- 2, 2, 0], [2, - 2, 2], [0, 2, - 2]])"
  by (simp add: run_defs eval_nat_numeral)

lemma example_zero_run:
  "heat_equation_1d lu_solve 5 3 (1 / 4) (0, 0) (replicate (5 - 2) 0)
     = Inr [[0, 0, 0, 0, 0], [0, 0, 0, 0, 0], [0, 0, 0, 0, 0]]"
  by (simp add: run_defs eval_nat_numeral)

lemma example_singular_prelude:
  "prelude 3 3 (- (1 / 2)) (0, 0) [1]
     = Inr (- 1, [[0, 1, 0], [0, 0, 0], [0, 0, 0]], [[0]], [[4]])"
  by (simp add: run_defs eval_nat_numeral)

lemma example_singular_solve: "lu_solve [[0]] [4] = Inl LinAlgError"
  by (simp add: run_defs)

lemma example_positive_run:
  "heat_equation_1d lu_solve 5 3 (1 / 4) (0, 0) [1, 2, 1]
     = Inr [[0, 1, 2, 1, 0], [0, 3 / 7, 2 / 7, 3 / 7, 0], [0, 1 / 49, 10 / 49, 1 / 49, 0]]"
  by (simp add: run_defs eval_nat_numeral)

section \<open>Properties of a run\<close>

text \<open>
  Claim C5. In every run, each snapshot \<open>l\<close> of the \<open>nt = step_count + 1\<close> snapshots
  has the boundary values at its first and last place, and no pass of the loop writes any
  place but the interior ones of snapshot \<open>l + 1\<close>: all other rows and the two end
  places of that row stay as they were.
\<close>

theorem boundary_values_fixed:
  assumes "heat_equation_1d solve nx nt D BCs u0 = Inr u"
  shows "length u = nt
     \<and> (\<forall>l<nt. length (u ! l) = nx \<and> u ! l ! 0 = fst BCs \<and> u ! l ! (nx - 1) = snd BCs)
     \<and> (\<forall>A B l v v'. step solve A B l v = Inr v' \<longrightarrow>
           length v' = length v
           \<and> (\<forall>r c. r \<noteq> Suc l \<or> c = 0 \<or> Suc c = length (v ! r) \<longrightarrow> v' ! r ! c = v ! r ! c))"
proof -
  from assms obtain lam v A B where p: "prelude nx nt D BCs u0 = Inr (lam, v, A, B)"
    and t: "time_loop solve A B [0..<nt - 1] v = (None, u)"
    unfolding heat_equation_1d_eq_Inr by blast
  have "bounded_by nt nx BCs (snd (time_loop solve A B [0..<nt - 1] v))"
    by (rule time_loop_invariant[where P = "bounded_by nt nx BCs"])
       (auto intro: prelude_bounded_by[OF p] step_bounded_by)
  with t have 1: "bounded_by nt nx BCs u" by simp
  have 2: "length v' = length v
           \<and> (\<forall>r c. r \<noteq> Suc l \<or> c = 0 \<or> Suc c = length (v ! r) \<longrightarrow> v' ! r ! c = v ! r ! c)"
    if s: "step solve A B l v = Inr v'" for A B l v v'
  proof -
    note f = step_frame[OF s]
    have "v' ! r ! c = v ! r ! c" if h: "r \<noteq> Suc l \<or> c = 0 \<or> Suc c = length (v ! r)" for r c
    proof -
      consider "r \<noteq> Suc l" | "c = 0" | "Suc c = length (v ! r)" using h by blast
      then show ?thesis
      proof cases
        case 1
        then show ?thesis by (simp add: f(2))
      next
        case 2
        then show ?thesis by (simp add: f(4))
      next
        case 3
        then have "c = length (v ! r) - 1" by simp
        then show ?thesis by (simp only: f(5))
      qed
    qed
    with f(1) show ?thesis by blast
  qed
  from 1 2 show ?thesis unfolding bounded_by_def by blast
qed

theorem boundary_values_fixed_witness:
  "heat_equation_1d lu_solve 5 3 (1 / 4) (7, 9) [1, 0, - 1]
     = Inr [[7, 1, 0, - 1, 9], [7, - (1 / 3), 0, 1 / 3, 9], [7, 1 / 9, 0, - (1 / 9), 9]]
   \<and> [[7, 1, 0, - 1, 9], [7, - (1 / 3), 0, 1 / 3, 9], [7, 1 / 9, 0, - (1 / 9), 9]] ! 2 ! 0 = (7::real)
   \<and> [[7, 1, 0, - 1, 9], [7, - (1 / 3), 0, 1 / 3, 9], [7, 1 / 9, 0, - (1 / 9), 9]] ! 2 ! (5 - 1) = (9::real)"
  using boundary_values_fixed[OF example_run_bounded] example_run_bounded by simp

text \<open>
  Claim C1. In a run with a solver that returns solutions, for every step
  \<open>l < step_count = nt - 1\<close> the interior values of snapshot \<open>l + 1\<close> are what the solver
  returns for the matrix A and the right-hand side \<open>b = B \<cdot> v\<close>, where v is the vector of
  the \<open>nx - 2\<close> interior values of snapshot \<open>l\<close>; they solve \<open>A \<cdot> x = b\<close>, and for
  \<open>D > 0\<close> (so \<open>\<lambda> > 0\<close>) nothing else does.
\<close>

theorem step_solves_linear_system:
  assumes run: "heat_equation_1d solve nx nt D BCs u0 = Inr u"
    and sound: "solver_sound solve" and l: "l < nt - 1"
  shows "\<exists>lam v A B b. prelude nx nt D BCs u0 = Inr (lam, v, A, B)
            \<and> matrix_A lam nx = Inr A \<and> matrix_B lam nx = Inr B
            \<and> length (interior (u ! l)) = nx - 2
            \<and> np_dot B (interior (u ! l)) = Inr b
            \<and> solve A b = Inr (interior (u ! Suc l))
            \<and> np_dot A (interior (u ! Suc l)) = Inr b
            \<and> (0 < D \<longrightarrow> (\<forall>y. np_dot A y = Inr b \<longrightarrow> y = interior (u ! Suc l)))"
proof -
  let ?A = "\<lambda>lam. tridiag (nx - 2) (2 * (1 + lam)) (- lam)"
  let ?B = "\<lambda>lam. tridiag (nx - 2) (2 * (1 - lam)) lam"
  from pass_solution[OF assms] obtain lam v b where
    p: "prelude nx nt D BCs u0 = Inr (lam, v, ?A lam, ?B lam)"
    and r: "length (interior (u ! l)) = nx - 2"
      "np_dot (?B lam) (interior (u ! l)) = Inr b"
      "solve (?A lam) b = Inr (interior (u ! Suc l))"
      "np_dot (?A lam) (interior (u ! Suc l)) = Inr b"
    by blast
  have uniq: "0 < D \<longrightarrow> (\<forall>y. np_dot (?A lam) y = Inr b \<longrightarrow> y = interior (u ! Suc l))"
  proof (intro impI allI)
    fix y assume "0 < D" and "np_dot (?A lam) y = Inr b"
    then show "y = interior (u ! Suc l)"
      using matrix_A_unique[OF lam_positive[OF p] r(4)] by blast
  qed
  have "matrix_A lam nx = Inr (?A lam)" "matrix_B lam nx = Inr (?B lam)"
    by (rule matrix_A_tridiag matrix_B_tridiag)+
  with p r uniq show ?thesis by blast
qed

theorem step_solves_linear_system_witness:
  "heat_equation_1d lu_solve 5 3 (1 / 4) (0, 0) [1, 0, - 1]
     = Inr [[0, 1, 0, - 1, 0], [0, - (1 / 3), 0, 1 / 3, 0], [0, 1 / 9, 0, - (1 / 9), 0]]
   \<and> solver_sound lu_solve \<and> (1::nat) < 3 - 1
   \<and> np_dot [[6, - 2, 0], [- 2, 6, - 2], [0, - 2, 6]] [1 / 9, 0, - (1 / 9)]
       = np_dot [[- 2, 2, 0], [2, - 2, 2], [0, 2, - 2]] [- (1 / 3), 0, 1 / 3]"
proof -
  have l: "(1::nat) < 3 - 1" by simp
  from step_solves_linear_system[OF example_run lu_solve_sound l]
  obtain lam v A B b where p: "prelude 5 3 (1 / 4) (0, 0) [1, 0, - 1] = Inr (lam, v, A, B)"
    and Bx: "np_dot B (interior ([[0, 1, 0, - 1, 0], [0, - (1 / 3), 0, 1 / 3, 0],
                                  [0, 1 / 9, 0, - (1 / 9), 0]] ! 1)) = Inr b"
    and Ax: "np_dot A (interior ([[0, 1, 0, - 1, 0], [0, - (1 / 3), 0, 1 / 3, 0],
                                  [0, 1 / 9, 0, - (1 / 9), 0]] ! Suc 1)) = Inr b"
    by blast
  from p have A: "A = [[6, - 2, 0], [- 2, 6, - 2], [0, - 2, 6]]"
    and B: "B = [[- 2, 2, 0], [2, - 2, 2], [0, 2, - 2]]"
    by (simp_all add: example_prelude)
  have "np_dot [[6, - 2, 0], [- 2, 6, - 2], [0, - 2, 6]] [1 / 9, 0, - (1 / 9)]
       = np_dot [[- 2, 2, 0], [2, - 2, 2], [0, 2, - 2]] [- (1 / 3), 0, 1 / 3]"
    using Ax Bx unfolding A B by (simp add: interior_def)
  with example_run lu_solve_sound l show ?thesis by blast
qed

text \<open>
  Claim C7. With a solver that returns solutions and \<open>D > 0\<close> (so \<open>\<lambda> > 0\<close>): if the
  initial interior field is the zero vector and both boundary values are zero, a run
  produces the zero field in every snapshot.
\<close>

theorem zero_field_fixed_point:
  assumes run: "heat_equation_1d solve nx nt D (0, 0) (replicate (nx - 2) 0) = Inr u"
    and sound: "solver_sound solve" and D: "0 < D"
  shows "u = zeros nt nx"
proof -
  from run obtain lam v0 A B where p: "prelude nx nt D (0, 0) (replicate (nx - 2) 0) = Inr (lam, v0, A, B)"
    and t: "time_loop solve A B [0..<nt - 1] v0 = (None, u)"
    unfolding heat_equation_1d_eq_Inr by blast
  note pre = prelude_eq_Inr[OF p]
  have lam: "0 < lam" by (rule lam_positive[OF p D])
  have zrow: "boundary_row nx (0, 0) = replicate nx 0"
    by (intro nth_equalityI) (auto simp: boundary_row_def nth_list_update)
  have int0: "interior (replicate nx 0) = replicate (nx - 2) (0::real)"
    using boundary_row_props(4)[OF pre(1), of "(0, 0)"] by (simp add: zrow)
  have asg: "assign_interior (replicate nx 0) (replicate (nx - 2) 0) = Inr (replicate nx 0)"
    by (rule assign_interior_zeros[OF pre(1)])
  have init: "v0 = zeros nt nx"
    using pre(6) pre(2) by (auto simp: zrow asg zeros_def intro!: nth_equalityI simp: nth_list_update)
  have keep: "v' = zeros nt nx" if v: "v = zeros nt nx" and s: "step solve A B l v = Inr v'" for l v v'
  proof -
    from s obtain b sol row where l: "Suc l < length v" and b: "np_dot B (interior (v ! l)) = Inr b"
      and sol: "solve A b = Inr sol" and row: "assign_interior (v ! Suc l) sol = Inr row"
      and v': "v' = v[Suc l := row]"
      unfolding step_eq_Inr by blast
    from l v have rows: "v ! l = replicate nx 0" "v ! Suc l = replicate nx 0"
      by (simp_all add: zeros_def)
    from b have "b = replicate (nx - 2) 0"
      by (auto simp: rows int0 pre(5) np_dot_tridiag intro!: nth_equalityI)
    with sound sol have "np_dot A sol = Inr (replicate (nx - 2) 0)"
      by (simp add: solver_sound_def)
    then have "sol = replicate (nx - 2) 0"
      unfolding pre(4) by (rule np_dot_matrix_A_zero[OF lam])
    with row asg have "row = replicate nx 0" by (simp add: rows)
    with v' v l show ?thesis by (simp add: zeros_def list_update_same_conv)
  qed
  have "snd (time_loop solve A B [0..<nt - 1] v0) = zeros nt nx"
    by (rule time_loop_invariant[where P = "\<lambda>v. v = zeros nt nx"]) (auto intro: init keep)
  with t show ?thesis by simp
qed

theorem zero_field_fixed_point_witness:
  "heat_equation_1d lu_solve 5 3 (1 / 4) (0, 0) (replicate (5 - 2) 0)
     = Inr [[0, 0, 0, 0, 0], [0, 0, 0, 0, 0], [0, 0, 0, 0, 0]]
   \<and> solver_sound lu_solve \<and> (0::real) < 1 / 4
   \<and> [[0, 0, 0, 0, 0], [0, 0, 0, 0, 0], [0, 0, 0, 0, 0]] = zeros 3 5"
  using zero_field_fixed_point[OF example_zero_run lu_solve_sound] example_zero_run lu_solve_sound
  by simp

lemma same_interiorD:
  assumes "same_interior u w"
  shows "length u = length w"
    and "r < length u \<Longrightarrow> length (u ! r) = length (w ! r)"
    and "r < length u \<Longrightarrow> interior (u ! r) = interior (w ! r)"
proof -
  from assms have ml: "map length u = map length w" and mi: "map interior u = map interior w"
    by (simp_all add: same_interior_def)
  from ml show len: "length u = length w" by (rule map_eq_imp_length_eq)
  show "length (u ! r) = length (w ! r)" if "r < length u"
    using arg_cong[OF ml, of "\<lambda>xs. xs ! r"] that len by simp
  show "interior (u ! r) = interior (w ! r)" if "r < length u"
    using arg_cong[OF mi, of "\<lambda>xs. xs ! r"] that len by simp
qed

lemma assign_interior_rel:
  assumes "length row = length row'"
  shows "rel_sum (=) (\<lambda>r r'. length r = length r' \<and> interior r = interior r')
           (assign_interior row v) (assign_interior row' v)"
proof (cases "assign_interior row v")
  case (Inl e)
  then have "assign_interior row v = Inl ValueError" "assign_interior row' v = Inl ValueError"
    using assms by (auto simp: assign_interior_def Let_def split: if_splits)
  then show ?thesis by simp
next
  case (Inr r)
  then obtain r' where r': "assign_interior row' v = Inr r'"
    using assms by (auto simp: assign_interior_def Let_def split: if_splits)
  from assign_interior_result(1,2)[OF Inr] assign_interior_result(1,2)[OF r'] assms
  show ?thesis by (simp add: Inr r')
qed

lemma step_rel:
  assumes "same_interior u w"
  shows "rel_sum (=) same_interior (step solve A B l u) (step solve A B l w)"
proof (cases "Suc l < length u")
  case False
  then have eq: "step solve A B l u = step solve A B l w"
    using same_interiorD[OF assms]
    by (cases "l < length u") (auto simp: step_def ebind_def split: sum.splits)
  obtain e where e: "step solve A B l u = Inl e"
    using False by (cases "step solve A B l u") (simp_all add: step_eq_Inr)
  from e eq have "step solve A B l w = Inl e" by simp
  with e show ?thesis by simp
next
  case True
  note d = same_interiorD[OF assms]
  from True d(1) have lw: "Suc l < length w" by simp
  have il: "interior (u ! l) = interior (w ! l)" using True d(3)[of l] by simp
  have ll: "length (u ! Suc l) = length (w ! Suc l)" using True d(2) by simp
  show ?thesis
  proof (cases "np_dot B (interior (u ! l))")
    case (Inl e)
    with True lw il show ?thesis by (simp add: step_def)
  next
    case b: (Inr b)
    show ?thesis
    proof (cases "solve A b")
      case (Inl e)
      with True lw il b show ?thesis by (simp add: step_def)
    next
      case sol: (Inr sol)
      have su: "step solve A B l u = ebind (assign_interior (u ! Suc l) sol) (\<lambda>row. Inr (u[Suc l := row]))"
        using True b sol by (simp add: step_def)
      have sw: "step solve A B l w = ebind (assign_interior (w ! Suc l) sol) (\<lambda>row. Inr (w[Suc l := row]))"
        using lw b sol il by (simp add: step_def)
      from assign_interior_rel[OF ll, of sol] show ?thesis
      proof (cases rule: rel_sum.cases)
        case (1 e e')
        then show ?thesis by (simp add: su sw)
      next
        case (2 r r')
        then have "same_interior (u[Suc l := r]) (w[Suc l := r'])"
          using assms by (simp add: same_interior_def map_update)
        with 2 show ?thesis by (simp add: su sw)
      qed
    qed
  qed
qed

lemma time_loop_rel:
  assumes "same_interior u w"
  shows "rel_prod (=) same_interior (time_loop solve A B ls u) (time_loop solve A B ls w)"
  using assms
proof (induction ls arbitrary: u w)
  case Nil
  then show ?case by simp
next
  case (Cons l ls)
  from step_rel[OF Cons.prems, of solve A B l] show ?case
  proof (cases rule: rel_sum.cases)
    case (1 e e')
    with Cons.prems show ?thesis by simp
  next
    case (2 v v')
    with Cons.IH[of v v'] show ?thesis by simp
  qed
qed

lemma prelude_rel:
  "rel_sum (=) (\<lambda>(lam, u, A, B) (lam', w, A', B'). lam = lam' \<and> A = A' \<and> B = B' \<and> same_interior u w)
     (prelude nx nt D BCs u0) (prelude nx nt D BCs' u0)"
proof -
  have len: "length (boundary_row nx BCs) = length (boundary_row nx BCs')"
    by (simp add: boundary_row_def)
  have int: "2 \<le> nx \<Longrightarrow> interior (boundary_row nx BCs) = interior (boundary_row nx BCs')"
    by (simp add: boundary_row_props(4))
  have int': "interior (boundary_row nx BCs) = interior (boundary_row nx BCs')"
  proof (cases "2 \<le> nx")
    case True then show ?thesis by (rule int)
  next
    case False
    then have "length (interior (boundary_row nx BCs)) = 0" "length (interior (boundary_row nx BCs')) = 0"
      by (simp_all add: boundary_row_def)
    then have "interior (boundary_row nx BCs) = []" "interior (boundary_row nx BCs') = []"
      by (simp_all only: length_0_conv)
    then show ?thesis by simp
  qed
  have rows: "same_interior ((replicate nt (boundary_row nx BCs))[0 := r])
                            ((replicate nt (boundary_row nx BCs'))[0 := r'])"
    if "length r = length r'" "interior r = interior r'" for r r'
    using that len int' by (simp add: same_interior_def map_update)
  show ?thesis
    unfolding prelude_unfold
    using assign_interior_rel[OF len, of u0]
    by (cases rule: rel_sum.cases) (auto simp: ebind_def rows split: sum.splits)
qed

text \<open>
  Claim C10. Two runs that differ in the boundary values only end alike, with the same
  error or with buffers whose snapshots have the same interior values: the boundary values
  never enter the right-hand side or the linear system.
\<close>

theorem interior_independent_of_boundary:
  "map_sum id (map interior) (heat_equation_1d solve nx nt D BCs u0)
     = map_sum id (map interior) (heat_equation_1d solve nx nt D BCs' u0)"
proof -
  from prelude_rel[of nx nt D BCs u0 BCs'] show ?thesis
  proof (cases rule: rel_sum.cases)
    case (1 e e')
    then show ?thesis by (simp add: heat_equation_1d_def)
  next
    case (2 p p')
    obtain lam u A B where p: "p = (lam, u, A, B)" by (cases p)
    obtain lam' w A' B' where p': "p' = (lam', w, A', B')" by (cases p')
    from 2 p p' have eq: "lam' = lam" "A' = A" "B' = B" and si: "same_interior u w" by simp_all
    obtain r v where t: "time_loop solve A B [0..<nt - 1] u = (r, v)"
      by (cases "time_loop solve A B [0..<nt - 1] u")
    obtain r' v' where t': "time_loop solve A B [0..<nt - 1] w = (r', v')"
      by (cases "time_loop solve A B [0..<nt - 1] w")
    from time_loop_rel[OF si, of solve A B "[0..<nt - 1]"] t t'
    have "r = r'" "same_interior v v'" by simp_all
    then show ?thesis using 2 p p' eq t t'
      by (cases r') (simp_all add: heat_equation_1d_def same_interior_def)
  qed
qed

theorem interior_independent_of_boundary_witness:
  "map_sum id (map interior) (heat_equation_1d lu_solve 5 3 (1 / 4) (0, 0) [1, 0, - 1])
     = map_sum id (map interior) (heat_equation_1d lu_solve 5 3 (1 / 4) (7, 9) [1, 0, - 1])"
  by (rule interior_independent_of_boundary)

text \<open>
  Claim C9 says that a failing solve makes the stepper fail with an error that carries the
  index of the failing step. With three grid points and \<open>D = -1/2\<close> the matrix A is the
  1 by 1 zero matrix and the solve of the first pass fails: the run ends with the solver's
  bare LinAlgError, and the loop leaves the buffer as it was set up.
\<close>

theorem solve_error_counterexample:
  "heat_equation_1d lu_solve 3 3 (- (1 / 2)) (0, 0) [1] = Inl LinAlgError
   \<and> map_sum id (\<lambda>(lam, u, A, B). time_loop lu_solve A B [0..<3 - 1] u)
        (prelude 3 3 (- (1 / 2)) (0, 0) [1])
       = Inr (Some LinAlgError, [[0, 1, 0], [0, 0, 0], [0, 0, 0]])"
  by (simp add: run_defs eval_nat_numeral)

text \<open>
  Claim C9, amended. If the passes before \<open>l\<close> succeed and the solve of pass \<open>l\<close>
  raises, the run ends with the solver's own exception, unchanged and without a step
  index; the loop stops there, with the buffer as the pass \<open>l - 1\<close> left it, so that no
  snapshot after \<open>l\<close> is written; the solve is not tried again.
\<close>

theorem solve_failure_aborts:
  assumes pre: "prelude nx nt D BCs u0 = Inr (lam, u, A, B)" and l: "l < nt - 1"
    and before: "time_loop solve A B [0..<l] u = (None, v)"
    and rhs: "np_dot B (interior (v ! l)) = Inr b"
    and fails: "solve A b = Inl e"
  shows "heat_equation_1d solve nx nt D BCs u0 = Inl e
       \<and> time_loop solve A B [0..<nt - 1] u = (Some e, v)
       \<and> (\<forall>r. l < r \<longrightarrow> v ! r = u ! r)"
proof -
  have "bounded_by nt nx BCs (snd (time_loop solve A B [0..<l] u))"
    by (rule time_loop_invariant[where P = "bounded_by nt nx BCs"])
       (auto intro: prelude_bounded_by[OF pre] step_bounded_by)
  with before have "length v = nt" by (simp add: bounded_by_def)
  with l rhs fails have s: "step solve A B l v = Inl e" by (auto simp: step_def)
  have t: "time_loop solve A B [0..<nt - 1] u = (Some e, v)"
    unfolding upt_split_at[OF l] time_loop_append before using s by simp
  have "v ! r = u ! r" if "l < r" for r
    using time_loop_untouched[of "[0..<l]" r solve A B u] that before by auto
  with t pre show ?thesis by (simp add: heat_equation_1d_def)
qed

theorem solve_failure_aborts_witness:
  "prelude 3 3 (- (1 / 2)) (0, 0) [1] = Inr (- 1, [[0, 1, 0], [0, 0, 0], [0, 0, 0]], [[0]], [[4]])
   \<and> (0::nat) < 3 - 1
   \<and> time_loop lu_solve [[0]] [[4]] [0..<0] [[0, 1, 0], [0, 0, 0], [0, 0, 0]]
        = (None, [[0, 1, 0], [0, 0, 0], [0, 0, 0]])
   \<and> np_dot [[4]] (interior ([[0, 1, 0], [0, 0, 0], [0, 0, 0]] ! 0)) = Inr [4]
   \<and> lu_solve [[0]] [4] = Inl LinAlgError
   \<and> heat_equation_1d lu_solve 3 3 (- (1 / 2)) (0, 0) [1] = Inl LinAlgError
   \<and> time_loop lu_solve [[0]] [[4]] [0..<3 - 1] [[0, 1, 0], [0, 0, 0], [0, 0, 0]]
        = (Some LinAlgError, [[0, 1, 0], [0, 0, 0], [0, 0, 0]])"
proof -
  have 1: "(0::nat) < 3 - 1" by simp
  have 2: "time_loop lu_solve [[0]] [[4]] [0..<0] [[0, 1, 0], [0, 0, 0], [0, 0, 0]]
        = (None, [[0, 1, 0], [0, 0, 0], [0, 0, 0]])" by simp
  have 3: "np_dot [[4]] (interior ([[0, 1, 0], [0, 0, 0], [0, 0, 0]] ! 0)) = Inr [4]"
    by (simp add: run_defs)
  from solve_failure_aborts[OF example_singular_prelude 1 2 3 example_singular_solve]
  show ?thesis using example_singular_prelude 1 2 3 example_singular_solve by blast
qed

text \<open>
  Claim C8 says that with \<open>\<lambda> > 0\<close> and zero boundary values the sum of the interior
  values never grows from one snapshot to the next. With three grid points, \<open>D = 1\<close>
  (so \<open>\<lambda> = 2\<close>) and the initial field \<open>[1]\<close> it grows from \<open>-1/3\<close> to \<open>1/9\<close> in the
  second step.
\<close>

theorem interior_sum_counterexample:
  "heat_equation_1d lu_solve 3 3 1 (0, 0) [1] = Inr [[0, 1, 0], [0, - (1 / 3), 0], [0, 1 / 9, 0]]
   \<and> sum_list (interior ([[0, 1, 0], [0, - (1 / 3), 0], [0, 1 / 9, 0]] ! 1))
       < sum_list (interior ([[0, 1, 0], [0, - (1 / 3), 0], [0, 1 / 9, 0 :: real]] ! 2))
   \<and> map_sum id fst (prelude 3 3 1 (0, 0) [1]) = Inr 2"
  by (simp add: run_defs eval_nat_numeral)

text \<open>
  Claim C8, amended. With \<open>\<lambda> > 0\<close> and at least one interior point, whatever the
  boundary values, each step lowers the sum of the interior values by \<open>\<lambda>/2\<close> times the
  sum of the first and last interior values of the two snapshots; so the sum does not grow
  in a step exactly when these four values add up to at least zero.
\<close>

theorem interior_sum_balance:
  assumes run: "heat_equation_1d solve nx nt D BCs u0 = Inr u"
    and sound: "solver_sound solve" and D: "0 < D" and nx: "3 \<le> nx" and l: "l < nt - 1"
  shows "\<exists>lam v A B. prelude nx nt D BCs u0 = Inr (lam, v, A, B) \<and> 0 < lam
          \<and> sum_list (interior (u ! Suc l))
              = sum_list (interior (u ! l))
                - lam / 2 * (hd (interior (u ! l)) + last (interior (u ! l))
                             + hd (interior (u ! Suc l)) + last (interior (u ! Suc l)))
          \<and> (sum_list (interior (u ! Suc l)) \<le> sum_list (interior (u ! l))
               \<longleftrightarrow> 0 \<le> hd (interior (u ! l)) + last (interior (u ! l))
                          + hd (interior (u ! Suc l)) + last (interior (u ! Suc l)))"
proof -
  let ?n = "nx - 2"
  from pass_solution[OF run sound l] obtain lam v b where
    p: "prelude nx nt D BCs u0
          = Inr (lam, v, tridiag ?n (2 * (1 + lam)) (- lam), tridiag ?n (2 * (1 - lam)) lam)"
    and lx: "length (interior (u ! l)) = ?n"
    and Bx: "np_dot (tridiag ?n (2 * (1 - lam)) lam) (interior (u ! l)) = Inr b"
    and Ax: "np_dot (tridiag ?n (2 * (1 + lam)) (- lam)) (interior (u ! Suc l)) = Inr b"
    by blast
  let ?x = "interior (u ! l)" and ?y = "interior (u ! Suc l)"
  have lam: "0 < lam" by (rule lam_positive[OF p D])
  have n: "0 < ?n" using nx by simp
  from Ax have ly: "length ?y = ?n" by (auto simp: np_dot_eq_Inr)
  from Ax Bx have "map (\<lambda>r. dot r ?y) (tridiag ?n (2 * (1 + lam)) (- lam))
                 = map (\<lambda>r. dot r ?x) (tridiag ?n (2 * (1 - lam)) lam)"
    using lx ly by (auto simp: np_dot_tridiag split: if_splits)
  then have "sum_list (map (\<lambda>r. dot r ?y) (tridiag ?n (2 * (1 + lam)) (- lam)))
           = sum_list (map (\<lambda>r. dot r ?x) (tridiag ?n (2 * (1 - lam)) lam))"
    by simp
  then have "(2 * (1 + lam) + 2 * (- lam)) * sum_list ?y - (- lam) * (hd ?y + last ?y)
           = (2 * (1 - lam) + 2 * lam) * sum_list ?x - lam * (hd ?x + last ?x)"
    by (simp only: sum_tridiag_dot[OF ly n] sum_tridiag_dot[OF lx n])
  then have id: "sum_list ?y = sum_list ?x - lam / 2 * (hd ?x + last ?x + hd ?y + last ?y)"
    by (simp add: algebra_simps)
  have "sum_list ?y \<le> sum_list ?x \<longleftrightarrow> 0 \<le> lam / 2 * (hd ?x + last ?x + hd ?y + last ?y)"
    using id by linarith
  also have "\<dots> \<longleftrightarrow> 0 \<le> hd ?x + last ?x + hd ?y + last ?y"
    using lam by (simp add: zero_le_mult_iff)
  finally show ?thesis using p lam id by blast
qed

theorem interior_sum_balance_witness:
  "heat_equation_1d lu_solve 5 3 (1 / 4) (0, 0) [1, 2, 1]
     = Inr [[0, 1, 2, 1, 0], [0, 3 / 7, 2 / 7, 3 / 7, 0], [0, 1 / 49, 10 / 49, 1 / 49, 0]]
   \<and> solver_sound lu_solve \<and> (0::real) < 1 / 4 \<and> (3::nat) \<le> 5 \<and> (0::nat) < 3 - 1
   \<and> (sum_list (interior ([[0, 1, 2, 1, 0], [0, 3 / 7, 2 / 7, 3 / 7, 0],
                             [0, 1 / 49, 10 / 49, 1 / 49, 0 :: real]] ! Suc 0))
         \<le> sum_list (interior ([[0, 1, 2, 1, 0], [0, 3 / 7, 2 / 7, 3 / 7, 0],
                                [0, 1 / 49, 10 / 49, 1 / 49, 0]] ! 0)))"
proof -
  have h: "(0::real) < 1 / 4" "(3::nat) \<le> 5" "(0::nat) < 3 - 1" by simp_all
  from interior_sum_balance[OF example_positive_run lu_solve_sound h]
  show ?thesis using example_positive_run lu_solve_sound h by (auto simp: interior_def)
qed

end
